theory Spec2Isabelle
  imports Complex_Main "HOL-Library.Word" "HOL-Library.Log_Nat" "HOL-Library.Signed_Division"
begin

section \<open>Machine arithmetic of the C++ sources\<close>

text \<open>
  The congestion-control classes (\<^verbatim>\<open>BIC/bic.md\<close>, \<^verbatim>\<open>CUBIC/cubic.md\<close> and the Vegas
  excerpts) compute on \<^verbatim>\<open>uint32_t\<close>, \<^verbatim>\<open>int32_t\<close>, \<^verbatim>\<open>uint64_t\<close> and \<^verbatim>\<open>double\<close>.
  Unsigned values are words, so \<open>+\<close>, \<open>-\<close> and \<open>*\<close> wrap as in C++; an \<^verbatim>\<open>int32_t\<close> is a
  32-bit word read through \<open>sint\<close>.  Undefined behaviour (integer division by zero, a
  \<^verbatim>\<open>double\<close> converted to \<^verbatim>\<open>uint32_t\<close> outside its range) is a value of type \<open>fault\<close>.
\<close>

type_synonym u32 = "32 word"
type_synonym u64 = "64 word"

datatype fault = DivisionByZero | FloatToIntRange

definition udiv :: "u32 \<Rightarrow> u32 \<Rightarrow> fault + u32" where
  "udiv a b = (if b = 0 then Inl DivisionByZero else Inr (a div b))"

text \<open>\<^verbatim>\<open>a / b\<close> on \<^verbatim>\<open>int32_t\<close> with a non-zero constant divisor: truncation towards zero.\<close>

definition sdiv32 :: "u32 \<Rightarrow> int \<Rightarrow> u32" where
  "sdiv32 a k = word_of_int (sint a sdiv k)"

subsection \<open>Doubles\<close>

text \<open>
  A finite \<^verbatim>\<open>double\<close> is the real number it denotes.  Every arithmetic operation of
  the source is the exact operation followed by \<open>fl\<close>, rounding to the nearest number
  with a 53-bit significand, ties to even (IEEE 754 binary64, the default rounding
  mode).  \<open>expo x\<close> is the binary exponent of \<open>x\<close>, that is \<open>\<lfloor>log\<^sub>2 \<bar>x\<bar>\<rfloor>\<close>, computed
  from integer logarithms.  The exponent range is not bounded: the magnitudes that
  occur below stay far inside the range of normal numbers.
\<close>

definition round_even :: "real \<Rightarrow> int" where
  "round_even x =
     (let f = \<lfloor>x\<rfloor>; r = x - of_int f
      in if r < 1 / 2 then f
         else if 1 / 2 < r then f + 1
         else if even f then f else f + 1)"

definition expo :: "real \<Rightarrow> int" where
  "expo x =
     (if 1 \<le> \<bar>x\<bar> then int (floorlog 2 (nat \<lfloor>\<bar>x\<bar>\<rfloor>)) - 1
      else - int (floorlog 2 (nat (\<lceil>1 / \<bar>x\<bar>\<rceil> - 1))))"

definition fl :: "real \<Rightarrow> real" where
  "fl x =
     (if x = 0 then 0
      else of_int (round_even (x * 2 powi (52 - expo x))) * 2 powi (expo x - 52))"

text \<open>\<^verbatim>\<open>static_cast<uint32_t>(d)\<close>: truncation towards zero, undefined when the truncated
  value is not a \<^verbatim>\<open>uint32_t\<close>.\<close>

definition to_uint32 :: "real \<Rightarrow> fault + u32" where
  "to_uint32 d =
     (if - 1 < d \<and> d < 4294967296
      then Inr (word_of_int (if 0 \<le> d then \<lfloor>d\<rfloor> else \<lceil>d\<rceil>))
      else Inl FloatToIntRange)"

text \<open>A \<^verbatim>\<open>uint32_t\<close> converts to \<^verbatim>\<open>double\<close> exactly.\<close>

definition of_uint32 :: "u32 \<Rightarrow> real" where
  "of_uint32 w = real (unat w)"

section \<open>Shared declarations\<close>

text \<open>
  Modelled from the spec: the header declaring \<^verbatim>\<open>SocketState\<close>, \<^verbatim>\<open>TCPState\<close> and
  \<^verbatim>\<open>CongestionEvent\<close> is not among the sources.  The phases are those of the phase state
  machine (section 4.2); the sources name \<open>Recovery\<close>, \<open>Loss\<close> and \<open>CWR\<close>.  The events are
  the four that \<^verbatim>\<open>CwndEvent\<close> switches on; \<open>OtherEvent\<close> stands for every enumerator
  that reaches its \<^verbatim>\<open>default\<close> branch.  The socket fields are those the window logic
  reads or writes, 32 bits wide as their uses with \<^verbatim>\<open>std::max\<close> and \<^verbatim>\<open>std::min\<close> require;
  \<^verbatim>\<open>rtt_var_\<close> and \<^verbatim>\<open>rto_us_\<close>, which \<^verbatim>\<open>PktsAcked\<close> writes and nothing reads, are left
  out.  A field \<^verbatim>\<open>cwnd_\<close> of the source is \<open>cwnd\<close> here, and so on: an identifier
  cannot end with an underscore.
\<close>

datatype TCPState = SlowStart | CongestionAvoidance | Recovery | Loss | CWR

datatype CongestionEvent = PacketLoss | Timeout | ECN | FastRecovery | OtherEvent

record SocketState =
  cwnd :: u32
  ssthresh :: u32
  mss_bytes :: u32
  rtt_us :: u32
  tcp_state :: TCPState
  congestion_event :: CongestionEvent

text \<open>A \<^verbatim>\<open>std::unique_ptr<SocketState>&\<close> is an optional socket: \<open>None\<close> is the null
  pointer.  A \<^verbatim>\<open>steady_clock::time_point\<close> is its count of nanoseconds; a function that
  reads the clock takes the reading \<open>now\<close> as an argument.\<close>

type_synonym time_point = int

section \<open>BIC\<close>

record BIC =
  m_ssthresh :: u32
  m_cwnd :: u32
  m_maxCwnd :: u32
  m_lastMaxCwnd :: u32
  m_lastCwnd :: u32
  m_minWin :: u32
  m_maxIncr :: u32
  m_minIncr :: u32
  m_beta :: real
  m_lowWindow :: u32
  m_smoothPart :: u32
  m_foundNewMax :: bool
  m_ackCount :: u32
  m_epochStart :: time_point

text \<open>The default constructor.\<close>

definition BIC_new :: "time_point \<Rightarrow> BIC" where
  "BIC_new now =
     \<lparr> m_ssthresh = 0x7fffffff, m_cwnd = 0, m_maxCwnd = 65535, m_lastMaxCwnd = 0,
       m_lastCwnd = 0, m_minWin = 0, m_maxIncr = 32, m_minIncr = 1, m_beta = fl (8 / 10),
       m_lowWindow = 14, m_smoothPart = 0, m_foundNewMax = False, m_ackCount = 0,
       m_epochStart = now \<rparr>"

text \<open>
  Every member function starts with \<^verbatim>\<open>if (socket == nullptr) return;\<close>.  The
  definitions below are the bodies behind that guard, on the socket the pointer refers
  to; \<open>on_socket\<close> is the guard itself: a call on a null pointer changes nothing.
\<close>

definition on_socket ::
  "('a \<Rightarrow> SocketState \<Rightarrow> fault + ('a \<times> SocketState)) \<Rightarrow>
   'a \<Rightarrow> SocketState option \<Rightarrow> fault + ('a \<times> SocketState option)" where
  "on_socket f a sock =
     (case sock of
        None \<Rightarrow> Inr (a, None)
      | Some s \<Rightarrow> (case f a s of Inl e \<Rightarrow> Inl e | Inr (a', s') \<Rightarrow> Inr (a', Some s')))"

text \<open>\<^verbatim>\<open>GetSsThresh\<close> also returns the new threshold; it is read back from \<open>m_ssthresh\<close>.\<close>

definition BIC_GetSsThresh :: "BIC \<Rightarrow> SocketState \<Rightarrow> fault + (BIC \<times> SocketState)" where
  "BIC_GetSsThresh b s =
     (let b = b\<lparr>m_lastMaxCwnd := cwnd s\<rparr> in
      case to_uint32 (fl (of_uint32 (cwnd s) * m_beta b)) of
        Inl e \<Rightarrow> Inl e
      | Inr v \<Rightarrow>
          let b = b\<lparr>m_ssthresh := max v (2 * mss_bytes s)\<rparr>
          in Inr (b, s\<lparr>ssthresh := m_ssthresh b\<rparr>))"

definition BIC_SlowStart :: "BIC \<Rightarrow> SocketState \<Rightarrow> u32 \<Rightarrow> u32" where
  "BIC_SlowStart b s segmentsAcked =
     (if segmentsAcked = 0 then m_cwnd b
      else let newCwnd = m_cwnd b + segmentsAcked * mss_bytes s;
               newCwnd = (if m_ssthresh b < newCwnd then m_ssthresh b else newCwnd)
           in min newCwnd (m_maxCwnd b))"

definition BIC_FastRecovery :: "BIC \<Rightarrow> SocketState \<Rightarrow> u32 \<Rightarrow> u32" where
  "BIC_FastRecovery b s segmentsAcked =
     min (m_cwnd b + segmentsAcked * mss_bytes s) (m_maxCwnd b)"

definition BicUpdate :: "BIC \<Rightarrow> SocketState \<Rightarrow> fault + BIC" where
  "BicUpdate b s =
     (let mss = mss_bytes s;
          b = b\<lparr>m_ackCount := m_ackCount b + 1\<rparr>;
          targetWin = (if \<not> m_foundNewMax b \<or> m_lastMaxCwnd b = 0
                       then m_cwnd b + m_maxIncr b * mss else m_lastMaxCwnd b)
      in case udiv (targetWin - m_cwnd b) mss of
           Inl e \<Rightarrow> Inl e
         | Inr dist32 \<Rightarrow>
             let b =
               (if sint (m_maxIncr b) < sint dist32 then
                  b\<lparr>m_cwnd := m_cwnd b + m_maxIncr b * mss\<rparr>
                else if 0 < sint dist32 then
                  let increment =
                    (if sint (m_minIncr b) < sint dist32 then
                       let increment = sdiv32 dist32 2 * mss
                       in if increment < m_minIncr b * mss then m_minIncr b * mss
                          else increment
                     else m_minIncr b * mss)
                  in b\<lparr>m_cwnd := m_cwnd b + increment\<rparr>
                else
                  let b = (if \<not> m_foundNewMax b
                           then b\<lparr>m_foundNewMax := True, m_lastMaxCwnd := m_cwnd b\<rparr>
                           else b)
                  in if m_cwnd b < m_lastMaxCwnd b + m_maxIncr b * mss then
                       b\<lparr>m_cwnd := m_cwnd b + m_minIncr b * mss\<rparr>
                     else
                       let b = b\<lparr>m_cwnd := m_cwnd b + m_maxIncr b * mss\<rparr>
                       in b\<lparr>m_lastMaxCwnd := m_cwnd b\<rparr>)
             in Inr (if m_cwnd b < m_minWin b then b\<lparr>m_cwnd := m_minWin b\<rparr> else b))"

definition BIC_CongestionAvoidance :: "BIC \<Rightarrow> SocketState \<Rightarrow> u32 \<Rightarrow> fault + (BIC \<times> u32)" where
  "BIC_CongestionAvoidance b s segmentsAcked =
     (if segmentsAcked = 0 then Inr (b, m_cwnd b)
      else case BicUpdate b s of Inl e \<Rightarrow> Inl e | Inr b' \<Rightarrow> Inr (b', m_cwnd b'))"

definition BIC_IncreaseWindow :: "BIC \<Rightarrow> SocketState \<Rightarrow> u32 \<Rightarrow> fault + (BIC \<times> SocketState)" where
  "BIC_IncreaseWindow b s segmentsAcked =
     (if segmentsAcked = 0 then Inr (b, s)
      else
        let b = b\<lparr>m_cwnd := cwnd s, m_ssthresh := ssthresh s\<rparr>;
            r = (if tcp_state s = Recovery then
                   Inr (b\<lparr>m_cwnd := BIC_FastRecovery b s segmentsAcked\<rparr>)
                 else if m_cwnd b < m_ssthresh b then
                   Inr (b\<lparr>m_cwnd := BIC_SlowStart b s segmentsAcked\<rparr>)
                 else
                   (case BIC_CongestionAvoidance b s segmentsAcked of
                      Inl e \<Rightarrow> Inl e
                    | Inr (b', w) \<Rightarrow> Inr (b'\<lparr>m_cwnd := w\<rparr>)))
        in case r of
             Inl e \<Rightarrow> Inl e
           | Inr b \<Rightarrow>
               let b = b\<lparr>m_cwnd := min (m_cwnd b) (m_maxCwnd b)\<rparr>
               in Inr (b, s\<lparr>cwnd := m_cwnd b\<rparr>))"

definition BIC_PktsAcked :: "BIC \<Rightarrow> SocketState \<Rightarrow> u32 \<Rightarrow> u64 \<Rightarrow> fault + (BIC \<times> SocketState)" where
  "BIC_PktsAcked b s segmentsAcked rtt =
     Inr (b\<lparr>m_ackCount := m_ackCount b + segmentsAcked\<rparr>, s\<lparr>rtt_us := ucast rtt\<rparr>)"

definition BicReset :: "time_point \<Rightarrow> BIC \<Rightarrow> BIC" where
  "BicReset now b =
     b\<lparr>m_lastMaxCwnd := 0, m_lastCwnd := 0, m_minWin := 0, m_foundNewMax := False,
       m_ackCount := 0, m_smoothPart := 0, m_epochStart := now\<rparr>"

definition BIC_CwndEvent :: "time_point \<Rightarrow> BIC \<Rightarrow> SocketState \<Rightarrow> CongestionEvent \<Rightarrow> fault + (BIC \<times> SocketState)" where
  "BIC_CwndEvent now b s ev =
     (let s = s\<lparr>congestion_event := ev\<rparr> in
      if ev = PacketLoss \<or> ev = Timeout then
        let b = (if m_lastMaxCwnd b < cwnd s then b\<lparr>m_lastMaxCwnd := cwnd s\<rparr> else b)
        in case BIC_GetSsThresh b s of
             Inl e \<Rightarrow> Inl e
           | Inr (b, s) \<Rightarrow>
               let b = b\<lparr>m_minWin := m_ssthresh b, m_foundNewMax := False\<rparr>;
                   (b, s) =
                     (if ev = Timeout then
                        let b = b\<lparr>m_cwnd := mss_bytes s\<rparr>;
                            s = s\<lparr>cwnd := m_cwnd b, tcp_state := Loss\<rparr>
                        in (BicReset now b, s)
                      else
                        let b = b\<lparr>m_cwnd := m_ssthresh b\<rparr>
                        in (b, s\<lparr>cwnd := m_cwnd b, tcp_state := Recovery\<rparr>))
               in Inr (b\<lparr>m_epochStart := now, m_ackCount := 0\<rparr>, s)
      else if ev = ECN then
        case BIC_GetSsThresh b s of
          Inl e \<Rightarrow> Inl e
        | Inr (b, s) \<Rightarrow>
            let b = b\<lparr>m_cwnd := m_ssthresh b\<rparr>;
                s = s\<lparr>cwnd := m_cwnd b, tcp_state := CWR\<rparr>
            in Inr (b\<lparr>m_minWin := m_ssthresh b, m_foundNewMax := False\<rparr>, s)
      else if ev = FastRecovery then
        Inr (b, s\<lparr>tcp_state := Recovery\<rparr>)
      else Inr (b, s))"



section \<open>CUBIC\<close>

text \<open>
  \<^verbatim>\<open>std::cbrt\<close> is the C library's and no theorem below depends on how it rounds: the
  functions that reach \<^verbatim>\<open>CalculateK\<close> take the cube root as the argument \<open>cbrt\<close>.
\<close>

record Cubic =
  m_ssthresh :: u32
  m_cwnd :: u32
  m_maxCwnd :: u32
  m_lastMaxCwnd :: u32
  m_lastCwnd :: u32
  m_k :: real
  m_cubicBeta :: real
  m_cubicC :: real
  m_fastConvergence :: bool
  m_tcpFriendly :: bool
  m_tcpCwnd :: u32
  m_epochStart :: time_point
  m_lastTime :: real
  m_ackCount :: u32
  m_cntRtt :: u32
  m_delayMin :: u32
  m_hystartEnabled :: bool
  m_hystartAckDelta :: u32
  m_hystartDelayMin :: u32
  m_hystartDelayMax :: u32

definition Cubic_new :: "time_point \<Rightarrow> Cubic" where
  "Cubic_new now =
     \<lparr> m_ssthresh = 0x7fffffff, m_cwnd = 0, m_maxCwnd = 65535, m_lastMaxCwnd = 0,
       m_lastCwnd = 0, m_k = 0, m_cubicBeta = fl (7 / 10), m_cubicC = fl (4 / 10),
       m_fastConvergence = True, m_tcpFriendly = True, m_tcpCwnd = 0, m_epochStart = now,
       m_lastTime = 0, m_ackCount = 0, m_cntRtt = 0, m_delayMin = 0xFFFFFFFF,
       m_hystartEnabled = True, m_hystartAckDelta = 2, m_hystartDelayMin = 0xFFFFFFFF,
       m_hystartDelayMax = 0 \<rparr>"

definition CalculateK :: "(real \<Rightarrow> real) \<Rightarrow> Cubic \<Rightarrow> Cubic" where
  "CalculateK cbrt c =
     (if m_lastMaxCwnd c = 0 \<or> m_cubicC c = 0 then c\<lparr>m_k := 0\<rparr>
      else
        let w_max_segments = fl (of_uint32 (m_lastMaxCwnd c) / 1460);
            numerator = fl (w_max_segments * fl (1 - m_cubicBeta c));
            k_cubed = fl (numerator / m_cubicC c)
        in if k_cubed < 0 then c\<lparr>m_k := 0\<rparr> else c\<lparr>m_k := cbrt k_cubed\<rparr>)"

definition CubicWindowCalculation :: "Cubic \<Rightarrow> real \<Rightarrow> fault + u32" where
  "CubicWindowCalculation c t =
     (let delta_t = fl (t - m_k c);
          cubic_term = fl (fl (fl (m_cubicC c * delta_t) * delta_t) * delta_t);
          target = fl (of_uint32 (m_lastMaxCwnd c) + fl (cubic_term * 1460));
          target = (if target < 0 then 0 else target)
      in to_uint32 target)"

definition Cubic_GetSsThresh :: "(real \<Rightarrow> real) \<Rightarrow> Cubic \<Rightarrow> SocketState \<Rightarrow> fault + (Cubic \<times> SocketState)" where
  "Cubic_GetSsThresh cbrt c s =
     (let c = c\<lparr>m_lastCwnd := cwnd s\<rparr> in
      case (if m_fastConvergence c \<and> cwnd s < m_lastMaxCwnd c
            then to_uint32 (fl (fl (of_uint32 (cwnd s) * fl (2 - m_cubicBeta c)) / 2))
            else Inr (cwnd s)) of
        Inl e \<Rightarrow> Inl e
      | Inr w \<Rightarrow>
          let c = c\<lparr>m_lastMaxCwnd := w\<rparr> in
          (case to_uint32 (fl (of_uint32 (cwnd s) * m_cubicBeta c)) of
             Inl e \<Rightarrow> Inl e
           | Inr v \<Rightarrow>
               let c = c\<lparr>m_ssthresh := max v (2 * mss_bytes s)\<rparr>
               in Inr (CalculateK cbrt c, s\<lparr>ssthresh := m_ssthresh c\<rparr>)))"

definition Cubic_SlowStart :: "Cubic \<Rightarrow> SocketState \<Rightarrow> u32 \<Rightarrow> Cubic \<times> u32" where
  "Cubic_SlowStart c s segmentsAcked =
     (if segmentsAcked = 0 then (c, m_cwnd c)
      else
        let newCwnd = m_cwnd c + segmentsAcked * mss_bytes s;
            (c, newCwnd) =
              (if m_ssthresh c < newCwnd
               then (c\<lparr>m_hystartDelayMin := 0xFFFFFFFF, m_hystartDelayMax := 0\<rparr>, m_ssthresh c)
               else (c, newCwnd))
        in (c, min newCwnd (m_maxCwnd c)))"

definition Cubic_FastRecovery :: "Cubic \<Rightarrow> SocketState \<Rightarrow> u32 \<Rightarrow> u32" where
  "Cubic_FastRecovery c s segmentsAcked =
     min (m_cwnd c + segmentsAcked * mss_bytes s) (m_maxCwnd c)"

text \<open>
  \<^verbatim>\<open>duration_cast<milliseconds>\<close> divides the count of nanoseconds by \<open>10\<^sup>6\<close>, truncating;
  the count of milliseconds converts to \<^verbatim>\<open>double\<close> with rounding.  In the TCP-friendly
  estimate a divisor \<^verbatim>\<open>2.0 - m_cubicBeta\<close> equal to zero makes the quotient infinite or
  not a number, and so does the sum that is then converted to \<^verbatim>\<open>uint32_t\<close>: that
  conversion is undefined.  In the first branch of the increment \<open>delta\<close> is positive.
\<close>

definition CubicUpdate :: "time_point \<Rightarrow> Cubic \<Rightarrow> SocketState \<Rightarrow> fault + Cubic" where
  "CubicUpdate now c s =
     (let c = c\<lparr>m_ackCount := m_ackCount c + 1\<rparr>;
          elapsed = (now - m_epochStart c) sdiv 1000000;
          t = fl (fl (of_int elapsed) / 1000)
      in case CubicWindowCalculation c t of
           Inl e \<Rightarrow> Inl e
         | Inr cubicTarget \<Rightarrow>
             (case (if m_tcpFriendly c \<and> 0 < rtt_us s then
                      let rtt_sec = fl (of_uint32 (rtt_us s) / 1000000);
                          mss = mss_bytes s;
                          c = (if m_tcpCwnd c = 0 then c\<lparr>m_tcpCwnd := m_cwnd c\<rparr> else c);
                          tcp_increment =
                            fl (fl (fl (fl (3 * m_cubicBeta c) / fl (2 - m_cubicBeta c))
                                    * fl (t / rtt_sec)) * of_uint32 mss)
                      in if fl (2 - m_cubicBeta c) = 0 then Inl FloatToIntRange
                         else
                           case to_uint32 (fl (fl (of_uint32 (m_lastMaxCwnd c) * fl (1 - m_cubicBeta c))
                                               + tcp_increment)) of
                             Inl e \<Rightarrow> Inl e
                           | Inr w \<Rightarrow>
                               let c = c\<lparr>m_tcpCwnd := w\<rparr>
                               in Inr (c, if cubicTarget < m_tcpCwnd c then m_tcpCwnd c
                                          else cubicTarget)
                    else Inr (c, cubicTarget)) of
                Inl e \<Rightarrow> Inl e
              | Inr (c, cubicTarget) \<Rightarrow>
                  (case (if m_cwnd c < cubicTarget then
                           let delta = cubicTarget - m_cwnd c;
                               mss = mss_bytes s;
                               cnt = m_cwnd c div delta;
                               cnt = (if cnt = 0 then 1 else cnt)
                           in Inr (if cnt \<le> m_ackCount c
                                   then c\<lparr>m_cwnd := m_cwnd c + mss, m_ackCount := 0\<rparr>
                                   else c)
                         else
                           case udiv (m_cwnd c) (mss_bytes s) of
                             Inl e \<Rightarrow> Inl e
                           | Inr q \<Rightarrow>
                               Inr (if q \<le> m_ackCount c
                                    then c\<lparr>m_cwnd := m_cwnd c + mss_bytes s, m_ackCount := 0\<rparr>
                                    else c)) of
                     Inl e \<Rightarrow> Inl e
                   | Inr c \<Rightarrow> Inr (c\<lparr>m_lastTime := t\<rparr>))))"

definition Cubic_CongestionAvoidance :: "time_point \<Rightarrow> Cubic \<Rightarrow> SocketState \<Rightarrow> u32 \<Rightarrow> fault + (Cubic \<times> u32)" where
  "Cubic_CongestionAvoidance now c s segmentsAcked =
     (if segmentsAcked = 0 then Inr (c, m_cwnd c)
      else case CubicUpdate now c s of Inl e \<Rightarrow> Inl e | Inr c' \<Rightarrow> Inr (c', m_cwnd c'))"

definition Cubic_IncreaseWindow :: "time_point \<Rightarrow> Cubic \<Rightarrow> SocketState \<Rightarrow> u32 \<Rightarrow> fault + (Cubic \<times> SocketState)" where
  "Cubic_IncreaseWindow now c s segmentsAcked =
     (if segmentsAcked = 0 then Inr (c, s)
      else
        let c = c\<lparr>m_cwnd := cwnd s, m_ssthresh := ssthresh s\<rparr>;
            r = (if tcp_state s = Recovery then
                   Inr (c\<lparr>m_cwnd := Cubic_FastRecovery c s segmentsAcked\<rparr>)
                 else if m_cwnd c < m_ssthresh c then
                   (let (c', w) = Cubic_SlowStart c s segmentsAcked in Inr (c'\<lparr>m_cwnd := w\<rparr>))
                 else
                   (case Cubic_CongestionAvoidance now c s segmentsAcked of
                      Inl e \<Rightarrow> Inl e
                    | Inr (c', w) \<Rightarrow> Inr (c'\<lparr>m_cwnd := w\<rparr>)))
        in case r of
             Inl e \<Rightarrow> Inl e
           | Inr c \<Rightarrow>
               let c = c\<lparr>m_cwnd := min (m_cwnd c) (m_maxCwnd c)\<rparr>
               in Inr (c, s\<lparr>cwnd := m_cwnd c\<rparr>))"

text \<open>\<^verbatim>\<open>rtt\<close> is a \<^verbatim>\<open>uint64_t\<close>: a comparison with a 32-bit member widens the member, a
  store into one truncates \<^verbatim>\<open>rtt\<close>.\<close>

definition Cubic_PktsAcked :: "Cubic \<Rightarrow> SocketState \<Rightarrow> u32 \<Rightarrow> u64 \<Rightarrow> fault + (Cubic \<times> SocketState)" where
  "Cubic_PktsAcked c s segmentsAcked rtt =
     (let s = s\<lparr>rtt_us := ucast rtt\<rparr>;
          c = (if 0 < rtt \<and> rtt < ucast (m_delayMin c) then c\<lparr>m_delayMin := ucast rtt\<rparr> else c);
          (c, s) =
            (if m_hystartEnabled c \<and> m_cwnd c < m_ssthresh c then
               let c = (if rtt < ucast (m_hystartDelayMin c)
                        then c\<lparr>m_hystartDelayMin := ucast rtt\<rparr> else c);
                   c = (if ucast (m_hystartDelayMax c) < rtt
                        then c\<lparr>m_hystartDelayMax := ucast rtt\<rparr> else c)
               in if m_hystartAckDelta c < m_hystartDelayMax c - m_hystartDelayMin c
                  then let c = c\<lparr>m_ssthresh := m_cwnd c\<rparr> in (c, s\<lparr>ssthresh := m_ssthresh c\<rparr>)
                  else (c, s)
             else (c, s))
      in Inr (c\<lparr>m_ackCount := m_ackCount c + segmentsAcked, m_cntRtt := m_cntRtt c + 1\<rparr>, s))"

definition CubicReset :: "time_point \<Rightarrow> Cubic \<Rightarrow> Cubic" where
  "CubicReset now c =
     c\<lparr>m_lastMaxCwnd := 0, m_lastCwnd := 0, m_k := 0, m_ackCount := 0, m_cntRtt := 0,
       m_lastTime := 0, m_tcpCwnd := 0, m_delayMin := 0xFFFFFFFF,
       m_hystartDelayMin := 0xFFFFFFFF, m_hystartDelayMax := 0, m_epochStart := now\<rparr>"

definition Cubic_CwndEvent :: "(real \<Rightarrow> real) \<Rightarrow> time_point \<Rightarrow> Cubic \<Rightarrow> SocketState \<Rightarrow> CongestionEvent \<Rightarrow> fault + (Cubic \<times> SocketState)" where
  "Cubic_CwndEvent cbrt now c s ev =
     (let s = s\<lparr>congestion_event := ev\<rparr> in
      if ev = PacketLoss \<or> ev = Timeout then
        case Cubic_GetSsThresh cbrt c s of
          Inl e \<Rightarrow> Inl e
        | Inr (c, s) \<Rightarrow>
            let (c, s) =
                  (if ev = Timeout then
                     let c = c\<lparr>m_cwnd := mss_bytes s\<rparr>;
                         s = s\<lparr>cwnd := m_cwnd c, tcp_state := Loss\<rparr>
                     in (CubicReset now c, s)
                   else
                     let c = c\<lparr>m_cwnd := m_ssthresh c\<rparr>
                     in (c, s\<lparr>cwnd := m_cwnd c, tcp_state := Recovery\<rparr>))
            in Inr (c\<lparr>m_epochStart := now, m_lastTime := 0, m_ackCount := 0, m_tcpCwnd := 0,
                      m_hystartDelayMin := 0xFFFFFFFF, m_hystartDelayMax := 0\<rparr>, s)
      else if ev = ECN then
        case Cubic_GetSsThresh cbrt c s of
          Inl e \<Rightarrow> Inl e
        | Inr (c, s) \<Rightarrow>
            let c = c\<lparr>m_cwnd := m_ssthresh c\<rparr>;
                s = s\<lparr>cwnd := m_cwnd c, tcp_state := CWR\<rparr>
            in Inr (c\<lparr>m_epochStart := now, m_lastTime := 0\<rparr>, s)
      else if ev = FastRecovery then
        Inr (c, s\<lparr>tcp_state := Recovery\<rparr>)
      else Inr (c, s))"

section \<open>Vegas\<close>

text \<open>
  Of the Vegas class the sources hold two excerpts: \<^verbatim>\<open>CalculateDiff\<close>, whose boundary
  checks are elided, and the decision of \<^verbatim>\<open>VegasUpdate\<close>.  The members are 32 bits
  wide, the round-trip times in microseconds; \<open>mss\<close>, a local of \<^verbatim>\<open>VegasUpdate\<close>, is an
  argument.  \<^verbatim>\<open>rttDiff\<close> and \<^verbatim>\<open>diff\<close> are \<^verbatim>\<open>int32_t\<close>; the product and the quotient are
  unsigned, as C++ computes \<^verbatim>\<open>uint32_t * int32_t\<close>.  With a base RTT of zero the division
  shown is undefined.
\<close>

record Vegas =
  m_cwnd :: u32
  m_baseRTT :: u32
  m_currentRTT :: u32
  m_alpha :: u32
  m_beta :: u32

definition CalculateDiff :: "Vegas \<Rightarrow> fault + u32" where
  "CalculateDiff v =
     (let rttDiff = m_currentRTT v - m_baseRTT v;
          cwndSegments = m_cwnd v div 1460
      in udiv (cwndSegments * rttDiff) (m_baseRTT v))"

definition VegasUpdate :: "Vegas \<Rightarrow> u32 \<Rightarrow> fault + Vegas" where
  "VegasUpdate v mss =
     (case CalculateDiff v of
        Inl e \<Rightarrow> Inl e
      | Inr diff \<Rightarrow>
          Inr (if sint diff < sint (m_alpha v) then v\<lparr>m_cwnd := m_cwnd v + mss\<rparr>
               else if sint (m_beta v) < sint diff then v\<lparr>m_cwnd := m_cwnd v - mss\<rparr>
               else v))"

section \<open>A connection and its events\<close>

text \<open>
  The strategies derive from one base class and are called through it: a connection
  holds one of them and its socket.
\<close>

datatype strategy = UseBIC BIC | UseCUBIC Cubic

type_synonym connection = "strategy \<times> SocketState option"

definition as_strategy :: "('a \<Rightarrow> strategy) \<Rightarrow> fault + ('a \<times> SocketState option) \<Rightarrow> fault + connection" where
  "as_strategy C r = (case r of Inl e \<Rightarrow> Inl e | Inr (a, sock) \<Rightarrow> Inr (C a, sock))"

fun IncreaseWindow :: "time_point \<Rightarrow> connection \<Rightarrow> u32 \<Rightarrow> fault + connection" where
  "IncreaseWindow now (UseBIC b, sock) segmentsAcked =
     as_strategy UseBIC (on_socket (\<lambda>b s. BIC_IncreaseWindow b s segmentsAcked) b sock)"
| "IncreaseWindow now (UseCUBIC c, sock) segmentsAcked =
     as_strategy UseCUBIC (on_socket (\<lambda>c s. Cubic_IncreaseWindow now c s segmentsAcked) c sock)"

fun PktsAcked :: "connection \<Rightarrow> u32 \<Rightarrow> u64 \<Rightarrow> fault + connection" where
  "PktsAcked (UseBIC b, sock) segmentsAcked rtt =
     as_strategy UseBIC (on_socket (\<lambda>b s. BIC_PktsAcked b s segmentsAcked rtt) b sock)"
| "PktsAcked (UseCUBIC c, sock) segmentsAcked rtt =
     as_strategy UseCUBIC (on_socket (\<lambda>c s. Cubic_PktsAcked c s segmentsAcked rtt) c sock)"

fun CwndEvent :: "(real \<Rightarrow> real) \<Rightarrow> time_point \<Rightarrow> connection \<Rightarrow> CongestionEvent \<Rightarrow> fault + connection" where
  "CwndEvent cbrt now (UseBIC b, sock) ev =
     as_strategy UseBIC (on_socket (\<lambda>b s. BIC_CwndEvent now b s ev) b sock)"
| "CwndEvent cbrt now (UseCUBIC c, sock) ev =
     as_strategy UseCUBIC (on_socket (\<lambda>c s. Cubic_CwndEvent cbrt now c s ev) c sock)"

text \<open>
  Modelled from the spec: the event dispatcher of section 4.1, which the sources do not
  hold.  An event is one call of the transport layer into the strategy, made at the
  clock reading it carries: acknowledged segments (\<^verbatim>\<open>IncreaseWindow\<close>), a round-trip
  sample (\<^verbatim>\<open>PktsAcked\<close>) or a congestion signal (\<^verbatim>\<open>CwndEvent\<close>).  \<open>run\<close> dispatches a
  sequence of events and returns the connection after each of them.
\<close>

datatype Event = Acked u32 | RttSample u32 u64 | Signal CongestionEvent

fun Dispatch :: "(real \<Rightarrow> real) \<Rightarrow> connection \<Rightarrow> time_point \<times> Event \<Rightarrow> fault + connection" where
  "Dispatch cbrt conn (now, Acked segmentsAcked) = IncreaseWindow now conn segmentsAcked"
| "Dispatch cbrt conn (now, RttSample segmentsAcked rtt) = PktsAcked conn segmentsAcked rtt"
| "Dispatch cbrt conn (now, Signal ev) = CwndEvent cbrt now conn ev"

fun run :: "(real \<Rightarrow> real) \<Rightarrow> connection \<Rightarrow> (time_point \<times> Event) list \<Rightarrow> fault + connection list" where
  "run cbrt conn [] = Inr []"
| "run cbrt conn (e # es) =
     (case Dispatch cbrt conn e of
        Inl f \<Rightarrow> Inl f
      | Inr conn' \<Rightarrow> (case run cbrt conn' es of Inl f \<Rightarrow> Inl f | Inr cs \<Rightarrow> Inr (conn' # cs)))"

text \<open>The window, the threshold and the segment size of a connection, and the window
  bound of its strategy.\<close>

fun maxCwnd :: "strategy \<Rightarrow> u32" where
  "maxCwnd (UseBIC b) = BIC.m_maxCwnd b"
| "maxCwnd (UseCUBIC c) = Cubic.m_maxCwnd c"

fun lastMaxCwnd :: "strategy \<Rightarrow> u32" where
  "lastMaxCwnd (UseBIC b) = BIC.m_lastMaxCwnd b"
| "lastMaxCwnd (UseCUBIC c) = Cubic.m_lastMaxCwnd c"

text \<open>The memory of a strategy in the state that its reset leaves at the clock reading
  \<open>now\<close>: no remembered maximum, counters at zero, the epoch started at \<open>now\<close>.\<close>

fun memory_cleared :: "time_point \<Rightarrow> strategy \<Rightarrow> bool" where
  "memory_cleared now (UseBIC b) \<longleftrightarrow>
     BIC.m_lastMaxCwnd b = 0 \<and> BIC.m_lastCwnd b = 0 \<and> m_minWin b = 0 \<and> \<not> m_foundNewMax b \<and>
     BIC.m_ackCount b = 0 \<and> m_smoothPart b = 0 \<and> BIC.m_epochStart b = now"
| "memory_cleared now (UseCUBIC c) \<longleftrightarrow>
     Cubic.m_lastMaxCwnd c = 0 \<and> Cubic.m_lastCwnd c = 0 \<and> m_k c = 0 \<and>
     Cubic.m_ackCount c = 0 \<and> m_cntRtt c = 0 \<and> m_lastTime c = 0 \<and> m_tcpCwnd c = 0 \<and>
     m_delayMin c = 0xFFFFFFFF \<and> m_hystartDelayMin c = 0xFFFFFFFF \<and> m_hystartDelayMax c = 0 \<and>
     Cubic.m_epochStart c = now"

text \<open>The parameters that the constructors set and no member function changes.\<close>

fun default_parameters :: "strategy \<Rightarrow> bool" where
  "default_parameters (UseBIC b) \<longleftrightarrow>
     BIC.m_maxCwnd b = 65535 \<and> m_maxIncr b = 32 \<and> m_minIncr b = 1 \<and> BIC.m_beta b = fl (8 / 10)"
| "default_parameters (UseCUBIC c) \<longleftrightarrow>
     Cubic.m_maxCwnd c = 65535 \<and> m_cubicBeta c = fl (7 / 10)"

text \<open>The window and the threshold of a connection, read from its socket.\<close>

definition window :: "connection \<Rightarrow> u32 option" where
  "window conn = map_option cwnd (snd conn)"

definition threshold :: "connection \<Rightarrow> u32 option" where
  "threshold conn = map_option ssthresh (snd conn)"

text \<open>The events that reduce the window, and the segments that an event
  acknowledges.\<close>

fun is_reduction :: "Event \<Rightarrow> bool" where
  "is_reduction (Signal PacketLoss) = True"
| "is_reduction (Signal Timeout) = True"
| "is_reduction (Signal ECN) = True"
| "is_reduction _ = False"

fun ack_segments :: "Event \<Rightarrow> u32" where
  "ack_segments (Acked segmentsAcked) = segmentsAcked"
| "ack_segments _ = 0"

text \<open>The invariant of a run: the socket is there, its segment size is \<open>M\<close>, its window
  is at least \<open>M\<close> and below \<open>2\<^sup>3\<^sup>1\<close>, and the strategy has its default parameters.\<close>

fun conn_ok :: "u32 \<Rightarrow> connection \<Rightarrow> bool" where
  "conn_ok M (st, None) = False"
| "conn_ok M (st, Some s) \<longleftrightarrow>
     default_parameters st \<and> mss_bytes s = M \<and> M \<le> cwnd s \<and> unat (cwnd s) < 2 ^ 31"

section \<open>Rounding to double\<close>

text \<open>Rounding never crosses a number that is itself representable: an integer multiple
  of \<open>2\<^sup>-\<^sup>m\<close> below (above) \<open>y\<close> stays below (above) \<open>fl y\<close>, as long as the
  significand of \<open>y\<close> reaches down to \<open>2\<^sup>-\<^sup>m\<close>.\<close>

lemma round_even_ge: "of_int k \<le> z \<Longrightarrow> k \<le> round_even z"
  unfolding round_even_def Let_def by (auto simp: le_floor_iff) linarith+

lemma round_even_le: "z \<le> of_int k \<Longrightarrow> round_even z \<le> k"
  unfolding round_even_def Let_def
  by (auto simp: floor_le_iff)

lemma round_even_of_int: "round_even (of_int k) = k"
  by (simp add: round_even_def)

lemma expo_le: "\<bar>y\<bar> < 2 ^ n \<Longrightarrow> 0 < n \<Longrightarrow> expo y \<le> int n - 1"
proof (cases "1 \<le> \<bar>y\<bar>")
  case True
  assume a: "\<bar>y\<bar> < 2 ^ n"
  have "nat \<lfloor>\<bar>y\<bar>\<rfloor> < 2 ^ n"
    using a True by (simp add: nat_less_iff floor_less_iff)
  then have "floorlog 2 (nat \<lfloor>\<bar>y\<bar>\<rfloor>) \<le> n"
    by (simp add: floorlog_le_iff)
  then show ?thesis using True by (simp add: expo_def)
next
  case False
  assume "0 < n"
  then show ?thesis using False by (simp add: expo_def)
qed

lemma fl_scaled:
  assumes "y \<noteq> 0" and "int m \<le> 52 - expo y"
  obtains n where "m \<le> n" and "fl y = of_int (round_even (y * 2 ^ n)) / 2 ^ n"
proof -
  define n where "n = nat (52 - expo y)"
  have e: "52 - expo y = int n" "expo y - 52 = - int n"
    using assms(2) by (simp_all add: n_def)
  have "fl y = of_int (round_even (y * 2 ^ n)) / 2 ^ n"
    using assms(1) unfolding fl_def e by (simp add: power_int_minus divide_inverse)
  moreover have "m \<le> n" using assms(2) by (simp add: n_def)
  ultimately show ?thesis using that by blast
qed

lemma fl_lower:
  assumes "of_int k / 2 ^ m \<le> y" and "int m \<le> 52 - expo y"
  shows "of_int k / 2 ^ m \<le> fl y"
proof (cases "y = 0")
  case True
  then show ?thesis using assms(1) by (simp add: fl_def)
next
  case False
  from fl_scaled[OF False assms(2)] obtain n where
    n: "m \<le> n" "fl y = of_int (round_even (y * 2 ^ n)) / 2 ^ n" by blast
  have p: "(2::real) ^ n = 2 ^ m * 2 ^ (n - m)"
    using n(1) by (simp flip: power_add)
  have "of_int (k * 2 ^ (n - m)) = (of_int k / 2 ^ m) * (2::real) ^ n"
    by (simp add: p)
  also have "\<dots> \<le> y * 2 ^ n"
    by (rule mult_right_mono[OF assms(1)]) simp
  finally have "k * 2 ^ (n - m) \<le> round_even (y * 2 ^ n)"
    by (rule round_even_ge)
  then have "of_int (k * 2 ^ (n - m)) \<le> (of_int (round_even (y * 2 ^ n)) :: real)"
    by (simp only: of_int_le_iff)
  then have "of_int (k * 2 ^ (n - m)) / 2 ^ n \<le> fl y"
    unfolding n(2) by (simp add: divide_right_mono)
  moreover have "of_int (k * 2 ^ (n - m)) / (2::real) ^ n = of_int k / 2 ^ m"
    by (simp add: p)
  ultimately show ?thesis by simp
qed

lemma fl_upper:
  assumes "y \<le> of_int k / 2 ^ m" and "int m \<le> 52 - expo y"
  shows "fl y \<le> of_int k / 2 ^ m"
proof (cases "y = 0")
  case True
  then show ?thesis using assms(1) by (simp add: fl_def)
next
  case False
  from fl_scaled[OF False assms(2)] obtain n where
    n: "m \<le> n" "fl y = of_int (round_even (y * 2 ^ n)) / 2 ^ n" by blast
  have p: "(2::real) ^ n = 2 ^ m * 2 ^ (n - m)"
    using n(1) by (simp flip: power_add)
  have "y * 2 ^ n \<le> (of_int k / 2 ^ m) * (2::real) ^ n"
    by (rule mult_right_mono[OF assms(1)]) simp
  also have "\<dots> = of_int (k * 2 ^ (n - m))"
    by (simp add: p)
  finally have "round_even (y * 2 ^ n) \<le> k * 2 ^ (n - m)"
    by (rule round_even_le)
  then have "(of_int (round_even (y * 2 ^ n)) :: real) \<le> of_int (k * 2 ^ (n - m))"
    by (simp only: of_int_le_iff)
  then have "fl y \<le> of_int (k * 2 ^ (n - m)) / 2 ^ n"
    unfolding n(2) by (simp add: divide_right_mono)
  moreover have "of_int (k * 2 ^ (n - m)) / (2::real) ^ n = of_int k / 2 ^ m"
    by (simp add: p)
  ultimately show ?thesis by simp
qed

lemma fl_of_int: "\<bar>k\<bar> < 2 ^ 53 \<Longrightarrow> fl (of_int k) = of_int k"
proof -
  assume a: "\<bar>k\<bar> < 2 ^ 53"
  then have "\<bar>real_of_int k\<bar> < 2 ^ 53"
    by (metis of_int_abs of_int_less_numeral_power_cancel_iff)
  then have e: "int 0 \<le> 52 - expo (of_int k)"
    using expo_le[of "of_int k" 53] by simp
  show ?thesis
    using fl_lower[of k 0 "of_int k", OF _ e] fl_upper[of "of_int k" k 0, OF _ e] by simp
qed

text \<open>The error of one rounding: at most half a unit in the last place, hence at most
  \<open>2\<^sup>-\<^sup>5\<^sup>3\<close> of the magnitude.\<close>

lemma expo_bounds:
  assumes "x \<noteq> 0"
  shows "2 powi expo x \<le> \<bar>x\<bar> \<and> \<bar>x\<bar> < 2 powi (expo x + 1)"
proof (cases "1 \<le> \<bar>x\<bar>")
  case True
  define n where "n = nat \<lfloor>\<bar>x\<bar>\<rfloor>"
  have n: "0 < n" "real n \<le> \<bar>x\<bar>" "\<bar>x\<bar> < real n + 1"
    using True unfolding n_def by (simp_all add: le_floor_iff)
  from floorlog_bounds[of n 2] n(1)
  have b: "2 ^ (floorlog 2 n - 1) \<le> n" "n < 2 ^ floorlog 2 n" by simp_all
  have p: "0 < floorlog 2 n" using n(1) by (simp add: floorlog_def)
  have e: "expo x = int (floorlog 2 n - 1)" "expo x + 1 = int (floorlog 2 n)"
    using True p by (simp_all add: expo_def n_def)
  have "real (2 ^ (floorlog 2 n - 1)) \<le> real n"
    using b(1) by (simp only: of_nat_le_iff)
  then have "(2::real) ^ (floorlog 2 n - 1) \<le> real n" by simp
  moreover have "real (Suc n) \<le> real (2 ^ floorlog 2 n)"
    using b(2) by (simp only: of_nat_le_iff Suc_le_eq)
  then have "real n + 1 \<le> 2 ^ floorlog 2 n" by simp
  ultimately have "2 ^ (floorlog 2 n - 1) \<le> \<bar>x\<bar> \<and> \<bar>x\<bar> < 2 ^ floorlog 2 n"
    using n by linarith
  moreover have "(2::real) powi expo x = 2 ^ (floorlog 2 n - 1)"
    by (simp only: e(1) power_int_of_nat)
  moreover have "(2::real) powi (expo x + 1) = 2 ^ floorlog 2 n"
    by (simp only: e(2) power_int_of_nat)
  ultimately show ?thesis by simp
next
  case False
  define y where "y = 1 / \<bar>x\<bar>"
  define m where "m = nat (\<lceil>y\<rceil> - 1)"
  define k where "k = floorlog 2 m"
  have ax: "0 < \<bar>x\<bar>" "\<bar>x\<bar> < 1" using assms False by simp_all
  then have y1: "1 < y" unfolding y_def by simp
  then have "2 \<le> \<lceil>y\<rceil>" by linarith
  then have m: "0 < m" "real m < y" "y \<le> real m + 1"
    unfolding m_def by (simp_all add: less_ceiling_iff) linarith+
  from floorlog_bounds[of m 2] m(1)
  have b: "2 ^ (k - 1) \<le> m" "m < 2 ^ k" by (simp_all add: k_def)
  have p: "0 < k" using m(1) by (simp add: k_def floorlog_def)
  have e: "expo x = - int k" using False by (simp add: expo_def k_def m_def y_def)
  have "real (2 ^ (k - 1)) \<le> real m"
    using b(1) by (simp only: of_nat_le_iff)
  then have "(2::real) ^ (k - 1) \<le> real m" by simp
  then have lo: "(2::real) ^ (k - 1) < y" using m(2) by linarith
  have "real (Suc m) \<le> real (2 ^ k)"
    using b(2) by (simp only: of_nat_le_iff Suc_le_eq)
  then have "real m + 1 \<le> 2 ^ k" by simp
  then have hi: "y \<le> 2 ^ k" using m(3) by linarith
  have x: "\<bar>x\<bar> = 1 / y" using ax by (simp add: y_def)
  have "1 / 2 ^ k \<le> \<bar>x\<bar>"
    unfolding x using hi y1 by (intro divide_left_mono) simp_all
  moreover have "\<bar>x\<bar> < 1 / 2 ^ (k - 1)"
    unfolding x using lo y1 by (intro divide_strict_left_mono) simp_all
  moreover have "(2::real) powi (- int k) = 1 / 2 ^ k"
    by (simp add: power_int_minus divide_inverse)
  moreover have "(2::real) powi (- int k + 1) = 1 / 2 ^ (k - 1)"
  proof -
    have "- int k + 1 = - int (k - 1)" using p by simp
    then show ?thesis by (simp only: power_int_minus power_int_of_nat) (simp add: divide_inverse)
  qed
  ultimately show ?thesis unfolding e by simp
qed

lemma round_even_error: "\<bar>of_int (round_even z) - z\<bar> \<le> 1 / 2"
  unfolding round_even_def Let_def by (auto simp: abs_le_iff)

lemma fl_error: "\<bar>fl x - x\<bar> \<le> 2 powi (expo x - 53)"
proof (cases "x = 0")
  case True
  then show ?thesis by (simp add: fl_def)
next
  case False
  define u :: real where "u = 2 powi (expo x - 52)"
  have u: "0 < u" by (simp add: u_def)
  have i: "2 powi (52 - expo x) = 1 / u"
    unfolding u_def by (simp add: power_int_diff)
  have "fl x - x = (of_int (round_even (x / u)) - x / u) * u"
    using False u by (simp add: fl_def i u_def[symmetric] field_simps)
  then have "\<bar>fl x - x\<bar> = \<bar>of_int (round_even (x / u)) - x / u\<bar> * u"
    using u by (simp add: abs_mult)
  also have "\<dots> \<le> 1 / 2 * u"
    by (rule mult_right_mono[OF round_even_error]) (use u in simp)
  also have "\<dots> = 2 powi (expo x - 53)"
    unfolding u_def by (simp add: power_int_diff)
  finally show ?thesis .
qed


lemma fl_relative:
  assumes "0 \<le> x"
  shows "x * (1 - 1 / 2 ^ 53) \<le> fl x \<and> fl x \<le> x * (1 + 1 / 2 ^ 53)"
proof (cases "x = 0")
  case True
  then show ?thesis by (simp add: fl_def)
next
  case False
  have "(2::real) powi (expo x - 53) = 2 powi expo x / 2 ^ 53"
    by (simp add: power_int_diff)
  also have "\<dots> \<le> \<bar>x\<bar> / 2 ^ 53"
    using expo_bounds[OF False] by (simp add: divide_right_mono)
  finally have "\<bar>fl x - x\<bar> \<le> x / 2 ^ 53"
    using fl_error[of x] assms by simp
  then have "fl x - x \<le> x / 2 ^ 53" "- (fl x - x) \<le> x / 2 ^ 53"
    unfolding abs_le_iff by simp_all
  then show ?thesis by (simp add: algebra_simps)
qed

lemma fl_0_8: "fl (4 / 5) = 3602879701896397 / 4503599627370496"
  by (simp add: fl_def expo_def compute_floorlog round_even_def Let_def)

lemma to_uint32_nat: "real n \<le> d \<Longrightarrow> d < real n + 1 \<Longrightarrow> n < 2 ^ 32 \<Longrightarrow> to_uint32 d = Inr (of_nat n)"
proof -
  assume a: "real n \<le> d" "d < real n + 1" "n < 2 ^ 32"
  have "\<lfloor>d\<rfloor> = int n" using a by linarith
  moreover have "real n < 4294967296" using a(3) by simp
  ultimately show ?thesis using a unfolding to_uint32_def by auto
qed

lemma bic_beta_product:
  "to_uint32 (fl (of_uint32 w * fl (4 / 5))) = Inr (of_nat (4 * unat w div 5))"
proof -
  define n where "n = unat w"
  define a where "a = 4 * n div 5"
  define y where "y = real n * (3602879701896397 / 4503599627370496)"
  have n: "n < 2 ^ 32" unfolding n_def using unsigned_less[of w, where ?'a = nat] by simp
  have a1: "5 * a \<le> 4 * n" and a2: "4 * n \<le> 5 * a + 4" unfolding a_def by arith+
  have r1: "5 * real a \<le> 4 * real n" and r2: "4 * real n \<le> 5 * real a + 4"
    using a1 a2 by linarith+
  have "n < 4294967296" using n by simp
  then have r3: "real n < 4294967296" by linarith
  have y0: "0 \<le> y" unfolding y_def by simp
  have "\<bar>y\<bar> < 2 ^ 32" using r3 y0 unfolding y_def by simp
  then have e: "expo y \<le> 31" using expo_le[of y 32] by simp
  have lo: "of_int (int a) / 2 ^ 0 \<le> y" using r1 unfolding y_def by simp
  have hi: "y \<le> of_int ((int a + 1) * 2 ^ 21 - 1) / 2 ^ 21"
    using r2 r3 unfolding y_def by simp
  have "of_int (int a) / 2 ^ 0 \<le> fl y"
    by (rule fl_lower[OF lo]) (use e in simp)
  moreover have "fl y \<le> of_int ((int a + 1) * 2 ^ 21 - 1) / 2 ^ 21"
    by (rule fl_upper[OF hi]) (use e in simp)
  ultimately have b: "real a \<le> fl y" "fl y < real a + 1" by simp_all
  have "a < 2 ^ 32" using a1 n by simp
  from to_uint32_nat[OF b this] show ?thesis
    by (simp add: of_uint32_def fl_0_8 y_def n_def a_def)
qed

section \<open>Word arithmetic\<close>

lemma sint_small: "unat (w :: u32) < 2 ^ 31 \<Longrightarrow> sint w = int (unat w)"
proof -
  assume "unat w < 2 ^ 31"
  then have "int (unat w) < int (2 ^ 31)" by (simp only: of_nat_less_iff)
  then have "uint w < 2 ^ 31" by simp
  moreover have "- (2 ^ 31) \<le> uint w" by (rule order_trans[of _ 0]) simp_all
  ultimately have "signed_take_bit 31 (uint w) = uint w"
    by (rule signed_take_bit_int_eq_self[rotated])
  then show ?thesis
    by (simp add: sint_uint)
qed


section \<open>BIC: the window reduction\<close>

lemma BIC_GetSsThresh_default:
  assumes "BIC.m_beta b = fl (4 / 5)"
  shows "BIC_GetSsThresh b s =
    Inr (b\<lparr>BIC.m_lastMaxCwnd := cwnd s,
           BIC.m_ssthresh := max (of_nat (4 * unat (cwnd s) div 5)) (2 * mss_bytes s)\<rparr>,
         s\<lparr>ssthresh := max (of_nat (4 * unat (cwnd s) div 5)) (2 * mss_bytes s)\<rparr>)"
  using assms by (simp add: BIC_GetSsThresh_def Let_def bic_beta_product)


text \<open>
  Claim C3.  Under BIC with the default \<open>\<beta> = 0.8\<close>, handling \<open>PacketLoss\<close> on a socket
  whose window is \<open>1000 \<times> MSS\<close> returns without fault, leaves \<open>ssthresh = 800 \<times> MSS\<close>
  (the product \<^verbatim>\<open>cwnd_ * m_beta\<close> is computed in double arithmetic and truncated; the
  floor of \<open>2 \<times> MSS\<close> does not bind), sets \<open>cwnd = ssthresh\<close> and the phase to
  \<open>Recovery\<close>.
\<close>

theorem C3_bic_packet_loss:
  assumes "BIC.m_beta b = fl (8 / 10)"
    and "unat (cwnd s) = 1000 * unat (mss_bytes s)"
  shows "\<exists>b' s'. BIC_CwndEvent now b s PacketLoss = Inr (b', s') \<and>
           unat (ssthresh s') = 800 * unat (mss_bytes s) \<and>
           cwnd s' = ssthresh s' \<and> tcp_state s' = Recovery"
proof -
  define M where "M = unat (mss_bytes s)"
  have "unat (cwnd s) < 2 ^ 32" using unsigned_less[of "cwnd s", where ?'a = nat] by simp
  then have M: "1000 * M < 4294967296" using assms(2) by (simp add: M_def)
  have q: "4 * unat (cwnd s) div 5 = 800 * M" using assms(2) by (simp add: M_def)
  have u1: "unat (of_nat (800 * M) :: u32) = 800 * M"
    using M by (simp add: unat_of_nat del: of_nat_mult)
  have "mss_bytes s = of_nat M" by (simp add: M_def)
  then have "2 * mss_bytes s = (of_nat (2 * M) :: u32)" by simp
  then have u2: "unat (2 * mss_bytes s) = 2 * M"
    using M by (simp add: unat_of_nat del: of_nat_mult)
  have "(2 * mss_bytes s) \<le> (of_nat (800 * M) :: u32)"
    unfolding word_le_nat_alt u1 u2 by simp
  then have mx: "max (of_nat (800 * M)) (2 * mss_bytes s) = (of_nat (800 * M) :: u32)"
    by (simp add: max_def)
  have b': "BIC.m_beta b = fl (4 / 5)"
    using assms(1) by simp
  show ?thesis
    unfolding BIC_CwndEvent_def Let_def
    by (simp add: BIC_GetSsThresh_default b' q mx u1 del: of_nat_mult) (simp add: M_def)
qed

theorem C3_bic_packet_loss_witness:
  "BIC.m_beta (BIC_new 0) = fl (8 / 10) \<and>
   unat (cwnd \<lparr>cwnd = 1460000, ssthresh = 0x7fffffff, mss_bytes = 1460, rtt_us = 0,
                 tcp_state = CongestionAvoidance, congestion_event = OtherEvent\<rparr>) = 1000 * unat (1460 :: u32) \<and>
   (\<exists>b' s'. BIC_CwndEvent 7 (BIC_new 0)
        \<lparr>cwnd = 1460000, ssthresh = 0x7fffffff, mss_bytes = 1460, rtt_us = 0,
         tcp_state = CongestionAvoidance, congestion_event = OtherEvent\<rparr> PacketLoss = Inr (b', s') \<and>
      unat (ssthresh s') = 1168000 \<and> cwnd s' = ssthresh s' \<and> tcp_state s' = Recovery)"
  using C3_bic_packet_loss [of "BIC_new 0"
      "\<lparr>cwnd = 1460000, ssthresh = 0x7fffffff, mss_bytes = 1460, rtt_us = 0,
        tcp_state = CongestionAvoidance, congestion_event = OtherEvent\<rparr>" 7]
  by (simp add: BIC_new_def)

section \<open>BIC: the growth step\<close>




section \<open>Vegas: the congestion-avoidance decision\<close>

text \<open>
  Claim C4, as stated, fails.  The tests are an \<^verbatim>\<open>if\<close> followed by an \<^verbatim>\<open>else if\<close>: with
  \<open>\<alpha> = 4\<close>, \<open>\<beta> = 2\<close> and \<open>diff = 3\<close> the difference is above \<open>\<beta>\<close>, and the window grows,
  from \<open>14600\<close> to \<open>16060\<close> bytes.  The difference \<^verbatim>\<open>m_cwnd -= mss\<close> is that of
  \<^verbatim>\<open>uint32_t\<close>: with \<open>diff = 9 > \<beta> = 4\<close>, a window of \<open>1460\<close> bytes and \<open>mss = 1500\<close> the
  result is \<open>2\<^sup>3\<^sup>2 - 40\<close>, not one MSS less.
\<close>

theorem C4_counterexample:
  "CalculateDiff \<lparr>m_cwnd = 14600, m_baseRTT = 100000, m_currentRTT = 130000,
                   m_alpha = 4, m_beta = 2\<rparr> = Inr 3 \<and>
   sint (2 :: u32) < sint (3 :: u32) \<and>
   map_sum id Vegas.m_cwnd
     (VegasUpdate \<lparr>m_cwnd = 14600, m_baseRTT = 100000, m_currentRTT = 130000,
                   m_alpha = 4, m_beta = 2\<rparr> 1460) = Inr 16060 \<and>
   (16060 :: u32) \<noteq> 14600 - 1460 \<and>
   CalculateDiff \<lparr>m_cwnd = 1460, m_baseRTT = 100000, m_currentRTT = 1000000,
                   m_alpha = 2, m_beta = 4\<rparr> = Inr 9 \<and>
   sint (4 :: u32) < sint (9 :: u32) \<and>
   map_sum id Vegas.m_cwnd
     (VegasUpdate \<lparr>m_cwnd = 1460, m_baseRTT = 100000, m_currentRTT = 1000000,
                   m_alpha = 2, m_beta = 4\<rparr> 1500) = Inr 4294967256 \<and>
   (1460 :: u32) < 4294967256"
  by (simp add: VegasUpdate_def CalculateDiff_def udiv_def)

text \<open>
  Claim C4, amended.  In the congestion-avoidance step of Vegas, for every state on
  which \<^verbatim>\<open>CalculateDiff\<close> returns, with \<open>diff\<close> the value it returns and the comparisons
  made on \<^verbatim>\<open>int32_t\<close> as in the source: if \<open>diff < \<alpha>\<close> the step adds \<open>mss\<close> to the window;
  otherwise, if \<open>diff > \<beta>\<close>, it subtracts \<open>mss\<close>; otherwise (\<open>\<alpha> \<le> diff \<le> \<beta>\<close>) the state is
  unchanged.  The first test wins where both hold (\<open>\<beta> < diff < \<alpha>\<close>).  The sum and the
  difference are those of \<^verbatim>\<open>uint32_t\<close>, modulo \<open>2\<^sup>3\<^sup>2\<close>: exactly one MSS more when the sum
  fits 32 bits, exactly one MSS less when the window holds at least one MSS.
\<close>

theorem C4_vegas_decision:
  assumes "CalculateDiff v = Inr diff"
  shows "(sint diff < sint (m_alpha v) \<longrightarrow>
            VegasUpdate v mss = Inr (v\<lparr>m_cwnd := m_cwnd v + mss\<rparr>)) \<and>
         (sint (m_alpha v) \<le> sint diff \<and> sint (m_beta v) < sint diff \<longrightarrow>
            VegasUpdate v mss = Inr (v\<lparr>m_cwnd := m_cwnd v - mss\<rparr>)) \<and>
         (sint (m_alpha v) \<le> sint diff \<and> sint diff \<le> sint (m_beta v) \<longrightarrow>
            VegasUpdate v mss = Inr v) \<and>
         (unat (m_cwnd v) + unat mss < 2 ^ 32 \<longrightarrow>
            unat (m_cwnd v + mss) = unat (m_cwnd v) + unat mss) \<and>
         (unat mss \<le> unat (m_cwnd v) \<longrightarrow>
            unat (m_cwnd v - mss) = unat (m_cwnd v) - unat mss)"
proof -
  have "unat (m_cwnd v + mss) = unat (m_cwnd v) + unat mss"
    if "unat (m_cwnd v) + unat mss < 2 ^ 32"
    by (rule unat_add_lem[THEN iffD1]) (use that in simp)
  moreover have "unat (m_cwnd v - mss) = unat (m_cwnd v) - unat mss"
    if "unat mss \<le> unat (m_cwnd v)"
    using that by (simp add: unat_sub word_le_nat_alt)
  ultimately show ?thesis
    using assms by (simp add: VegasUpdate_def)
qed

theorem C4_vegas_decision_witness:
  "VegasUpdate \<lparr>m_cwnd = 14600, m_baseRTT = 100000, m_currentRTT = 101000, m_alpha = 2, m_beta = 4\<rparr> 1460
     = Inr \<lparr>m_cwnd = 16060, m_baseRTT = 100000, m_currentRTT = 101000, m_alpha = 2, m_beta = 4\<rparr> \<and>
   VegasUpdate \<lparr>m_cwnd = 14600, m_baseRTT = 100000, m_currentRTT = 150000, m_alpha = 2, m_beta = 4\<rparr> 1460
     = Inr \<lparr>m_cwnd = 13140, m_baseRTT = 100000, m_currentRTT = 150000, m_alpha = 2, m_beta = 4\<rparr> \<and>
   VegasUpdate \<lparr>m_cwnd = 14600, m_baseRTT = 100000, m_currentRTT = 130000, m_alpha = 2, m_beta = 4\<rparr> 1460
     = Inr \<lparr>m_cwnd = 14600, m_baseRTT = 100000, m_currentRTT = 130000, m_alpha = 2, m_beta = 4\<rparr> \<and>
   VegasUpdate \<lparr>m_cwnd = 14600, m_baseRTT = 100000, m_currentRTT = 150000, m_alpha = 4, m_beta = 2\<rparr> 1460
     = Inr \<lparr>m_cwnd = 13140, m_baseRTT = 100000, m_currentRTT = 150000, m_alpha = 4, m_beta = 2\<rparr>"
  using
    C4_vegas_decision [of "\<lparr>m_cwnd = 14600, m_baseRTT = 100000, m_currentRTT = 101000, m_alpha = 2, m_beta = 4\<rparr>" 0 1460]
    C4_vegas_decision [of "\<lparr>m_cwnd = 14600, m_baseRTT = 100000, m_currentRTT = 150000, m_alpha = 2, m_beta = 4\<rparr>" 5 1460]
    C4_vegas_decision [of "\<lparr>m_cwnd = 14600, m_baseRTT = 100000, m_currentRTT = 130000, m_alpha = 2, m_beta = 4\<rparr>" 3 1460]
    C4_vegas_decision [of "\<lparr>m_cwnd = 14600, m_baseRTT = 100000, m_currentRTT = 150000, m_alpha = 4, m_beta = 2\<rparr>" 5 1460]
  by (simp add: CalculateDiff_def udiv_def)

text \<open>
  Claim C5, as stated, fails.  With \<open>baseRTT = currentRTT = 100 ms\<close> the difference is
  \<open>0\<close>, which is below \<open>\<alpha> = 2\<close>, and the step adds one MSS: from \<open>14600\<close> bytes the
  window becomes \<open>16060\<close>.
\<close>

theorem C5_counterexample:
  "map_sum id m_cwnd
     (VegasUpdate \<lparr>m_cwnd = 14600, m_baseRTT = 100000, m_currentRTT = 100000,
                   m_alpha = 2, m_beta = 4\<rparr> 1460) = Inr (14600 + 1460) \<and>
   CalculateDiff \<lparr>m_cwnd = 14600, m_baseRTT = 100000, m_currentRTT = 100000,
                   m_alpha = 2, m_beta = 4\<rparr> = Inr 0 \<and>
   (14600 + 1460 :: u32) \<noteq> 14600"
  by (simp add: VegasUpdate_def CalculateDiff_def udiv_def)

text \<open>
  Claim C5, amended.  When the current RTT equals a non-zero base RTT the computed
  difference is \<open>0\<close>, and one step applies the decision rule at \<open>diff = 0\<close>, the
  thresholds read as \<^verbatim>\<open>int32_t\<close>: it adds \<open>mss\<close> to the window when \<open>\<alpha> > 0\<close>, subtracts
  \<open>mss\<close> when \<open>\<alpha> \<le> 0\<close> and \<open>\<beta> < 0\<close>, and leaves the state unchanged when \<open>\<alpha> \<le> 0 \<le> \<beta>\<close>.
  The sum and the difference are those of \<^verbatim>\<open>uint32_t\<close>: exactly one MSS more when the
  sum fits 32 bits, exactly one MSS less when the window holds at least one MSS.
\<close>

theorem C5_vegas_equal_rtt:
  assumes "m_currentRTT v = m_baseRTT v" and "m_baseRTT v \<noteq> 0"
  shows "CalculateDiff v = Inr 0 \<and>
         (0 < sint (m_alpha v) \<longrightarrow> VegasUpdate v mss = Inr (v\<lparr>m_cwnd := m_cwnd v + mss\<rparr>)) \<and>
         (sint (m_alpha v) \<le> 0 \<and> sint (m_beta v) < 0 \<longrightarrow>
            VegasUpdate v mss = Inr (v\<lparr>m_cwnd := m_cwnd v - mss\<rparr>)) \<and>
         (sint (m_alpha v) \<le> 0 \<and> 0 \<le> sint (m_beta v) \<longrightarrow> VegasUpdate v mss = Inr v) \<and>
         (unat (m_cwnd v) + unat mss < 2 ^ 32 \<longrightarrow>
            unat (m_cwnd v + mss) = unat (m_cwnd v) + unat mss) \<and>
         (unat mss \<le> unat (m_cwnd v) \<longrightarrow>
            unat (m_cwnd v - mss) = unat (m_cwnd v) - unat mss)"
proof -
  have "unat (m_cwnd v + mss) = unat (m_cwnd v) + unat mss"
    if "unat (m_cwnd v) + unat mss < 2 ^ 32"
    by (rule unat_add_lem[THEN iffD1]) (use that in simp)
  moreover have "unat (m_cwnd v - mss) = unat (m_cwnd v) - unat mss"
    if "unat mss \<le> unat (m_cwnd v)"
    using that by (simp add: unat_sub word_le_nat_alt)
  ultimately show ?thesis
    using assms by (simp add: VegasUpdate_def CalculateDiff_def udiv_def)
qed

theorem C5_vegas_equal_rtt_witness:
  "VegasUpdate \<lparr>m_cwnd = 14600, m_baseRTT = 100000, m_currentRTT = 100000, m_alpha = 2, m_beta = 4\<rparr> 1460
     = Inr \<lparr>m_cwnd = 16060, m_baseRTT = 100000, m_currentRTT = 100000, m_alpha = 2, m_beta = 4\<rparr> \<and>
   VegasUpdate \<lparr>m_cwnd = 14600, m_baseRTT = 100000, m_currentRTT = 100000, m_alpha = 0, m_beta = 4\<rparr> 1460
     = Inr \<lparr>m_cwnd = 14600, m_baseRTT = 100000, m_currentRTT = 100000, m_alpha = 0, m_beta = 4\<rparr> \<and>
   VegasUpdate \<lparr>m_cwnd = 14600, m_baseRTT = 100000, m_currentRTT = 100000, m_alpha = 0, m_beta = - 1\<rparr> 1460
     = Inr \<lparr>m_cwnd = 13140, m_baseRTT = 100000, m_currentRTT = 100000, m_alpha = 0, m_beta = - 1\<rparr>"
  using
    C5_vegas_equal_rtt [of "\<lparr>m_cwnd = 14600, m_baseRTT = 100000, m_currentRTT = 100000, m_alpha = 2, m_beta = 4\<rparr>" 1460]
    C5_vegas_equal_rtt [of "\<lparr>m_cwnd = 14600, m_baseRTT = 100000, m_currentRTT = 100000, m_alpha = 0, m_beta = 4\<rparr>" 1460]
    C5_vegas_equal_rtt [of "\<lparr>m_cwnd = 14600, m_baseRTT = 100000, m_currentRTT = 100000, m_alpha = 0, m_beta = - 1\<rparr>" 1460]
  by simp

section \<open>Growing the window\<close>

text \<open>
  Claim C9.  For BIC and for CUBIC, on any connection (with or without a socket),
  \<^verbatim>\<open>IncreaseWindow\<close> with \<open>segmentsAcked = 0\<close> returns at once: the window, the
  threshold, the rest of the socket and the whole state of the strategy are unchanged.
\<close>

theorem C9_zero_segments_noop:
  "IncreaseWindow now (st, sock) 0 = Inr (st, sock)"
  by (cases st; cases sock)
     (simp_all add: as_strategy_def on_socket_def BIC_IncreaseWindow_def Cubic_IncreaseWindow_def)

text \<open>
  Claim C10, as stated, fails: a call with \<open>segmentsAcked = 0\<close> returns before the bound
  is applied.  A socket that enters with a window of \<open>100000\<close> bytes leaves with it, above
  the default \<open>m_maxCwnd = 65535\<close>.
\<close>

theorem C10_counterexample:
  "IncreaseWindow 0
     (UseBIC (BIC_new 0),
      Some \<lparr>cwnd = 100000, ssthresh = 0x7fffffff, mss_bytes = 1460, rtt_us = 0,
            tcp_state = SlowStart, congestion_event = OtherEvent\<rparr>) 0
   = Inr (UseBIC (BIC_new 0),
          Some \<lparr>cwnd = 100000, ssthresh = 0x7fffffff, mss_bytes = 1460, rtt_us = 0,
                tcp_state = SlowStart, congestion_event = OtherEvent\<rparr>) \<and>
   \<not> (100000 \<le> maxCwnd (UseBIC (BIC_new 0)))"
  by (simp add: as_strategy_def on_socket_def BIC_IncreaseWindow_def BIC_new_def)

lemma BIC_IncreaseWindow_cap:
  assumes "segmentsAcked \<noteq> 0" and "BIC_IncreaseWindow b s segmentsAcked = Inr (b', s')"
  shows "cwnd s' \<le> BIC.m_maxCwnd b' \<and> BIC.m_maxCwnd b' = BIC.m_maxCwnd b"
  using assms
  by (auto simp: BIC_IncreaseWindow_def BIC_CongestionAvoidance_def BicUpdate_def Let_def
           split: if_splits sum.splits)

lemma CubicUpdate_maxCwnd:
  "CubicUpdate now c s = Inr c' \<Longrightarrow> Cubic.m_maxCwnd c' = Cubic.m_maxCwnd c"
  by (auto simp: CubicUpdate_def Let_def split: if_splits sum.splits prod.splits)

lemma Cubic_IncreaseWindow_cap:
  assumes "segmentsAcked \<noteq> 0" and "Cubic_IncreaseWindow now c s segmentsAcked = Inr (c', s')"
  shows "cwnd s' \<le> Cubic.m_maxCwnd c' \<and> Cubic.m_maxCwnd c' = Cubic.m_maxCwnd c"
  using assms
  by (auto simp: Cubic_IncreaseWindow_def Cubic_CongestionAvoidance_def Cubic_SlowStart_def Let_def
           dest!: CubicUpdate_maxCwnd split: if_splits sum.splits prod.splits)

text \<open>
  Claim C10, amended.  For BIC and for CUBIC, every call of \<^verbatim>\<open>IncreaseWindow\<close> on a socket
  with \<open>segmentsAcked \<noteq> 0\<close> that returns (no division by zero, no double out of the range
  of \<^verbatim>\<open>uint32_t\<close>) leaves the window of the socket at most \<open>m_maxCwnd\<close>, which the call
  does not change.
\<close>

theorem C10_window_capped:
  assumes "segmentsAcked \<noteq> 0"
    and "IncreaseWindow now (st, Some s) segmentsAcked = Inr (st', sock')"
  shows "\<exists>s'. sock' = Some s' \<and> cwnd s' \<le> maxCwnd st' \<and> maxCwnd st' = maxCwnd st"
proof (cases st)
  case (UseBIC b)
  then show ?thesis
    using assms BIC_IncreaseWindow_cap[of segmentsAcked b s]
    by (auto simp: as_strategy_def on_socket_def split: sum.splits)
next
  case (UseCUBIC c)
  then show ?thesis
    using assms Cubic_IncreaseWindow_cap[of segmentsAcked now c s]
    by (auto simp: as_strategy_def on_socket_def split: sum.splits)
qed

theorem C10_window_capped_witness:
  "(2 :: u32) \<noteq> 0 \<and>
   (\<exists>b' s'. IncreaseWindow 0
       (UseBIC (BIC_new 0),
        Some \<lparr>cwnd = 64000, ssthresh = 0x7fffffff, mss_bytes = 1460, rtt_us = 0,
              tcp_state = SlowStart, congestion_event = OtherEvent\<rparr>) 2 = Inr (UseBIC b', Some s') \<and>
      cwnd s' = 65535 \<and> cwnd s' \<le> maxCwnd (UseBIC b') \<and> maxCwnd (UseBIC b') = 65535)"
  using C10_window_capped [of 2 0 "UseBIC (BIC_new 0)"
      "\<lparr>cwnd = 64000, ssthresh = 0x7fffffff, mss_bytes = 1460, rtt_us = 0,
        tcp_state = SlowStart, congestion_event = OtherEvent\<rparr>"]
  by (simp add: as_strategy_def on_socket_def BIC_IncreaseWindow_def BIC_SlowStart_def
        BIC_new_def Let_def)


section \<open>CUBIC: rounding in the window reduction\<close>

lemma fl_nonneg: "0 \<le> y \<Longrightarrow> 0 \<le> fl y"
proof -
  assume y: "0 \<le> y"
  have "of_int 0 \<le> y * 2 powi (52 - expo y)" using y by simp
  then have "0 \<le> round_even (y * 2 powi (52 - expo y))" by (rule round_even_ge)
  then show ?thesis by (simp add: fl_def)
qed

lemma fl_0_7: "fl (7 / 10) = 3152519739159347 / 4503599627370496"
  by (simp add: fl_def expo_def compute_floorlog round_even_def Let_def)

lemma fl_0_4: "fl (2 / 5) = 3602879701896397 / 9007199254740992"
  by (simp add: fl_def expo_def compute_floorlog round_even_def Let_def)

lemma fl_1_3: "fl (5854679515581645 / 4503599627370496) = 5854679515581645 / 4503599627370496"
  by (simp add: fl_def expo_def compute_floorlog round_even_def Let_def)

lemma fl_0_3: "fl (1351079888211149 / 4503599627370496) = 1351079888211149 / 4503599627370496"
  by (simp add: fl_def expo_def compute_floorlog round_even_def Let_def)

lemma unat_u32_less: "real (unat (w :: u32)) < 4294967296"
proof -
  have "unat w < 2 ^ 32" using unsigned_less[of w, where ?'a = nat] by simp
  then have "unat w < 4294967296" by simp
  then show ?thesis by linarith
qed

lemma to_uint32_scaled:
  assumes "0 \<le> \<beta>" and "\<beta> \<le> 1"
  shows "\<exists>v. to_uint32 (fl (of_uint32 w * \<beta>)) = Inr v \<and> unat v \<le> unat w"
proof -
  define n where "n = unat w"
  define y where "y = real n * \<beta>"
  have n: "real n < 4294967296" unfolding n_def by (rule unat_u32_less)
  have y0: "0 \<le> y" unfolding y_def using assms(1) by simp
  have y1: "y \<le> real n" unfolding y_def using assms(2) by (simp add: mult_left_le)
  have "\<bar>y\<bar> < 2 ^ 32" using y0 y1 n by simp
  then have e: "expo y \<le> 31" using expo_le[of y 32] by simp
  have "fl y \<le> of_int (int n) / 2 ^ 0"
    by (rule fl_upper) (use y1 e in simp_all)
  then have u: "fl y \<le> real n" by simp
  have l: "0 \<le> fl y" using y0 by (rule fl_nonneg)
  have f: "0 \<le> \<lfloor>fl y\<rfloor>" "\<lfloor>fl y\<rfloor> \<le> int n" using l u by (simp_all add: floor_le_iff le_floor_iff)
  have "n < 2 ^ 32" unfolding n_def using unsigned_less[of w, where ?'a = nat] by simp
  then have "nat \<lfloor>fl y\<rfloor> < 2 ^ 32" using f by linarith
  then have "unat (word_of_int \<lfloor>fl y\<rfloor> :: u32) = nat \<lfloor>fl y\<rfloor>"
    using f(1) by (simp add: unat_eq_nat_uint uint_word_of_int take_bit_int_eq_self nat_less_iff)
  then have "unat (word_of_int \<lfloor>fl y\<rfloor> :: u32) \<le> n" using f by linarith
  moreover have "to_uint32 (fl y) = Inr (word_of_int \<lfloor>fl y\<rfloor>)"
    using l u n by (simp add: to_uint32_def)
  ultimately show ?thesis by (simp add: of_uint32_def y_def n_def)
qed

lemma cubic_fast_convergence_product:
  "to_uint32 (fl (fl (of_uint32 w * (5854679515581645 / 4503599627370496)) / 2))
     = Inr (of_nat (13 * unat w div 20))"
proof -
  define n where "n = unat w"
  define a where "a = 13 * n div 20"
  define y where "y = real n * (5854679515581645 / 4503599627370496)"
  have r3: "real n < 4294967296" unfolding n_def by (rule unat_u32_less)
  have a1: "20 * a \<le> 13 * n" and a2: "13 * n \<le> 20 * a + 19" unfolding a_def by arith+
  have r1: "20 * real a \<le> 13 * real n" and r2: "13 * real n \<le> 20 * real a + 19"
    using a1 a2 by linarith+
  have y0: "0 \<le> y" unfolding y_def by simp
  have "\<bar>y\<bar> < 2 ^ 33" using r3 y0 unfolding y_def by simp
  then have e: "expo y \<le> 32" using expo_le[of y 33] by simp
  have lo: "of_int (2 * int a) / 2 ^ 0 \<le> y" using r1 unfolding y_def by simp
  have hi: "y \<le> of_int ((2 * int a + 2) * 2 ^ 20 - 1) / 2 ^ 20"
    using r2 r3 unfolding y_def by simp
  have "of_int (2 * int a) / 2 ^ 0 \<le> fl y"
    by (rule fl_lower[OF lo]) (use e in simp)
  moreover have "fl y \<le> of_int ((2 * int a + 2) * 2 ^ 20 - 1) / 2 ^ 20"
    by (rule fl_upper[OF hi]) (use e in simp)
  ultimately have z: "2 * real a \<le> fl y" "fl y \<le> 2 * real a + 2 - 2 / 2 ^ 21"
    by (simp_all add: field_simps)
  define z where "z = fl y / 2"
  have z1: "real a \<le> z" "z \<le> real a + 1 - 1 / 2 ^ 21" using z unfolding z_def by simp_all
  have "real a < 4294967296" using r1 r3 by linarith
  then have "\<bar>z\<bar> < 2 ^ 32" using z1 by simp
  then have e': "expo z \<le> 31" using expo_le[of z 32] by simp
  have lo': "of_int (int a) / 2 ^ 0 \<le> z" using z1 by simp
  have hi': "z \<le> of_int ((int a + 1) * 2 ^ 21 - 1) / 2 ^ 21" using z1 by (simp add: field_simps)
  have "of_int (int a) / 2 ^ 0 \<le> fl z"
    by (rule fl_lower[OF lo']) (use e' in simp)
  moreover have "fl z \<le> of_int ((int a + 1) * 2 ^ 21 - 1) / 2 ^ 21"
    by (rule fl_upper[OF hi']) (use e' in simp)
  ultimately have b: "real a \<le> fl z" "fl z < real a + 1" by (simp_all add: field_simps)
  have "a < 2 ^ 32" using a1 unsigned_less[of w, where ?'a = nat] by (simp add: n_def)
  from to_uint32_nat[OF b this] show ?thesis
    by (simp add: of_uint32_def y_def z_def n_def a_def)
qed

lemma fl_zero: "fl 0 = 0"
  by (simp add: fl_def)

lemma fl_of_uint32: "fl (of_uint32 w) = of_uint32 w"
proof -
  have "unat w < 2 ^ 32" using unsigned_less[of w, where ?'a = nat] by simp
  then have "unat w < 2 ^ 53" by (rule less_trans) simp
  then have "int (unat w) < int (2 ^ 53)" by (simp only: of_nat_less_iff)
  then have "\<bar>int (unat w)\<bar> < 2 ^ 53" by simp
  from fl_of_int[OF this] show ?thesis by (simp add: of_uint32_def)
qed

lemma to_uint32_of_uint32: "to_uint32 (of_uint32 w) = Inr w"
proof -
  have "unat w < 2 ^ 32" using unsigned_less[of w, where ?'a = nat] by simp
  from to_uint32_nat[OF _ _ this, of "of_uint32 w"] show ?thesis
    by (simp add: of_uint32_def)
qed

lemma of_uint32_nonneg: "0 \<le> of_uint32 w"
  unfolding of_uint32_def by (rule of_nat_0_le_iff)

lemma CubicWindowCalculation_at_K:
  "CubicWindowCalculation c (m_k c) = Inr (Cubic.m_lastMaxCwnd c)"
proof -
  have "\<not> of_uint32 (Cubic.m_lastMaxCwnd c) < 0"
    using of_uint32_nonneg[of "Cubic.m_lastMaxCwnd c"] by linarith
  then show ?thesis
    by (simp add: CubicWindowCalculation_def fl_zero fl_of_uint32 to_uint32_of_uint32)
qed

lemma Cubic_GetSsThresh_default:
  assumes "m_cubicBeta c = fl (7 / 10)"
  shows "\<exists>v. unat v \<le> unat (cwnd s) \<and>
     Cubic_GetSsThresh cbrt c s =
       Inr (CalculateK cbrt
              (c\<lparr>m_lastCwnd := cwnd s,
                 Cubic.m_lastMaxCwnd :=
                   (if m_fastConvergence c \<and> cwnd s < Cubic.m_lastMaxCwnd c
                    then of_nat (13 * unat (cwnd s) div 20) else cwnd s),
                 Cubic.m_ssthresh := max v (2 * mss_bytes s)\<rparr>),
            s\<lparr>ssthresh := max v (2 * mss_bytes s)\<rparr>)"
proof -
  have "(0::real) \<le> 3152519739159347 / 4503599627370496"
       "(3152519739159347 / 4503599627370496 :: real) \<le> 1" by simp_all
  from to_uint32_scaled[OF this, of "cwnd s"] obtain v where
    v: "to_uint32 (fl (of_uint32 (cwnd s) * (3152519739159347 / 4503599627370496))) = Inr v"
       "unat v \<le> unat (cwnd s)" by blast
  have b: "m_cubicBeta c = 3152519739159347 / 4503599627370496"
    using assms by (simp only: fl_0_7)
  show ?thesis
    using v cubic_fast_convergence_product[of "cwnd s"]
    by (intro exI[of _ v]) (simp add: Cubic_GetSsThresh_def Let_def b fl_1_3)
qed

section \<open>CUBIC: the window reduction\<close>

text \<open>
  Claim C8.  With the default \<open>\<beta> = 0.7\<close>, \<^verbatim>\<open>Cubic::GetSsThresh\<close> returns without fault and
  leaves in \<open>m_lastMaxCwnd\<close>: when fast convergence is enabled and the window of the
  socket is strictly below the remembered maximum, the integer part of
  \<open>cwnd \<times> (2 - \<beta>) / 2\<close> (the double computation of the source, truncated to
  \<^verbatim>\<open>uint32_t\<close>, equals the floor of the exact value); otherwise the window itself.
\<close>

theorem C8_cubic_fast_convergence:
  assumes "m_cubicBeta c = fl (7 / 10)"
  shows "\<exists>c' s'. Cubic_GetSsThresh cbrt c s = Inr (c', s') \<and>
     unat (Cubic.m_lastMaxCwnd c') =
       (if m_fastConvergence c \<and> cwnd s < Cubic.m_lastMaxCwnd c
        then nat \<lfloor>real (unat (cwnd s)) * (2 - 7 / 10) / 2\<rfloor>
        else unat (cwnd s))"
proof -
  define n where "n = unat (cwnd s)"
  have "real n * (2 - 7 / 10) / 2 = real (13 * n) / real 20" by simp
  then have "\<lfloor>real n * (2 - 7 / 10) / 2\<rfloor> = int (13 * n div 20)"
    by (simp only: floor_divide_of_nat_eq)
  then have f: "nat \<lfloor>real n * (2 - 7 / 10) / 2\<rfloor> = 13 * n div 20" by simp
  have "n < 2 ^ 32" unfolding n_def using unsigned_less[of "cwnd s", where ?'a = nat] by simp
  then have "13 * n div 20 < 2 ^ 32" by simp
  then have u: "unat (of_nat (13 * n div 20) :: u32) = 13 * n div 20"
    by (simp add: unat_of_nat del: of_nat_mult)
  have k: "Cubic.m_lastMaxCwnd (CalculateK cbrt x) = Cubic.m_lastMaxCwnd x" for x
    by (simp add: CalculateK_def Let_def)
  from Cubic_GetSsThresh_default[OF assms, of s cbrt] obtain v where
    "Cubic_GetSsThresh cbrt c s =
       Inr (CalculateK cbrt
              (c\<lparr>m_lastCwnd := cwnd s,
                 Cubic.m_lastMaxCwnd :=
                   (if m_fastConvergence c \<and> cwnd s < Cubic.m_lastMaxCwnd c
                    then of_nat (13 * unat (cwnd s) div 20) else cwnd s),
                 Cubic.m_ssthresh := max v (2 * mss_bytes s)\<rparr>),
            s\<lparr>ssthresh := max v (2 * mss_bytes s)\<rparr>)" by blast
  then show ?thesis
    using f u by (simp add: k n_def del: of_nat_mult)
qed

theorem C8_cubic_fast_convergence_witness:
  "(\<exists>c' s'. Cubic_GetSsThresh (root 3) ((Cubic_new 0)\<lparr>Cubic.m_lastMaxCwnd := 20000\<rparr>)
        \<lparr>cwnd = 10000, ssthresh = 0x7fffffff, mss_bytes = 1460, rtt_us = 0,
         tcp_state = CongestionAvoidance, congestion_event = OtherEvent\<rparr> = Inr (c', s') \<and>
      unat (Cubic.m_lastMaxCwnd c') = 6500) \<and>
   (\<exists>c' s'. Cubic_GetSsThresh (root 3) ((Cubic_new 0)\<lparr>Cubic.m_lastMaxCwnd := 20000\<rparr>)
        \<lparr>cwnd = 30000, ssthresh = 0x7fffffff, mss_bytes = 1460, rtt_us = 0,
         tcp_state = CongestionAvoidance, congestion_event = OtherEvent\<rparr> = Inr (c', s') \<and>
      unat (Cubic.m_lastMaxCwnd c') = 30000)"
  using
    C8_cubic_fast_convergence [of "(Cubic_new 0)\<lparr>Cubic.m_lastMaxCwnd := 20000\<rparr>" "root 3"
      "\<lparr>cwnd = 10000, ssthresh = 0x7fffffff, mss_bytes = 1460, rtt_us = 0,
        tcp_state = CongestionAvoidance, congestion_event = OtherEvent\<rparr>"]
    C8_cubic_fast_convergence [of "(Cubic_new 0)\<lparr>Cubic.m_lastMaxCwnd := 20000\<rparr>" "root 3"
      "\<lparr>cwnd = 30000, ssthresh = 0x7fffffff, mss_bytes = 1460, rtt_us = 0,
        tcp_state = CongestionAvoidance, congestion_event = OtherEvent\<rparr>"]
  by (simp add: Cubic_new_def)

lemma k_cubed_bounds:
  assumes "0 \<le> x"
  shows "\<bar>fl (fl (fl x * (1351079888211149 / 4503599627370496)) / (3602879701896397 / 9007199254740992))
          - x * (1 - 7 / 10) / (4 / 10)\<bar> \<le> x * (1 - 7 / 10) / (4 / 10) / 2 ^ 50"
proof -
  define u :: real where "u = 1 / 2 ^ 53"
  define c1 :: real where "c1 = 1351079888211149 / 4503599627370496"
  define c2 :: real where "c2 = 3602879701896397 / 9007199254740992"
  define a1 where "a1 = fl x"
  define a2 where "a2 = fl (a1 * c1)"
  define a3 where "a3 = fl (a2 / c2)"
  have c: "0 < c1" "0 < c2" by (simp_all add: c1_def c2_def)
  have u: "0 \<le> 1 - u" "0 \<le> 1 + u" by (simp_all add: u_def)
  have a1: "x * (1 - u) \<le> a1" "a1 \<le> x * (1 + u)" "0 \<le> a1"
    using fl_relative[OF assms] fl_nonneg[OF assms] by (simp_all add: a1_def u_def)
  have p1: "0 \<le> a1 * c1" using a1(3) c(1) by simp
  have a2: "a1 * c1 * (1 - u) \<le> a2" "a2 \<le> a1 * c1 * (1 + u)" "0 \<le> a2"
    using fl_relative[OF p1] fl_nonneg[OF p1] by (simp_all add: a2_def u_def)
  have p2: "0 \<le> a2 / c2" using a2(3) c(2) by simp
  have a3: "a2 / c2 * (1 - u) \<le> a3" "a3 \<le> a2 / c2 * (1 + u)"
    using fl_relative[OF p2] by (simp_all add: a3_def u_def)
  have "x * (1 - u) * c1 * (1 - u) \<le> a1 * c1 * (1 - u)"
    using a1(1) c(1) u(1) by (intro mult_right_mono) simp_all
  then have l2: "x * (1 - u) * c1 * (1 - u) \<le> a2" using a2(1) by linarith
  have "x * (1 - u) * c1 * (1 - u) / c2 * (1 - u) \<le> a2 / c2 * (1 - u)"
    using l2 c(2) u(1) by (intro mult_right_mono divide_right_mono) simp_all
  then have lo: "x * ((1 - u) * c1 * (1 - u) / c2 * (1 - u)) \<le> a3"
    using a3(1) by (simp add: mult.assoc)
  have "a1 * c1 * (1 + u) \<le> x * (1 + u) * c1 * (1 + u)"
    using a1(2) c(1) u(2) by (intro mult_right_mono) simp_all
  then have h2: "a2 \<le> x * (1 + u) * c1 * (1 + u)" using a2(2) by linarith
  have "a2 / c2 * (1 + u) \<le> x * (1 + u) * c1 * (1 + u) / c2 * (1 + u)"
    using h2 c(2) u(2) by (intro mult_right_mono divide_right_mono) simp_all
  then have hi: "a3 \<le> x * ((1 + u) * c1 * (1 + u) / c2 * (1 + u))"
    using a3(2) by (simp add: mult.assoc)
  have nl: "(1 - 7 / 10) / (4 / 10) * (1 - 1 / 2 ^ 50) \<le> (1 - u) * c1 * (1 - u) / c2 * (1 - u)"
    by (simp add: u_def c1_def c2_def)
  have nh: "(1 + u) * c1 * (1 + u) / c2 * (1 + u) \<le> (1 - 7 / 10) / (4 / 10) * (1 + 1 / 2 ^ 50)"
    by (simp add: u_def c1_def c2_def)
  have "x * ((1 - 7 / 10) / (4 / 10) * (1 - 1 / 2 ^ 50)) \<le> a3"
    using mult_left_mono[OF nl assms] lo by linarith
  then have l: "- (a3 - x * (1 - 7 / 10) / (4 / 10)) \<le> x * (1 - 7 / 10) / (4 / 10) / 2 ^ 50"
    by simp
  have "a3 \<le> x * ((1 - 7 / 10) / (4 / 10) * (1 + 1 / 2 ^ 50))"
    using mult_left_mono[OF nh assms] hi by linarith
  then have h: "a3 - x * (1 - 7 / 10) / (4 / 10) \<le> x * (1 - 7 / 10) / (4 / 10) / 2 ^ 50"
    by simp
  from h l have "\<bar>a3 - x * (1 - 7 / 10) / (4 / 10)\<bar> \<le> x * (1 - 7 / 10) / (4 / 10) / 2 ^ 50"
    by (rule abs_leI)
  then show ?thesis by (simp only: a3_def a2_def a1_def c1_def c2_def)
qed


lemma CalculateK_value:
  assumes "m_cubicBeta c = fl (7 / 10)" and "m_cubicC c = fl (4 / 10)"
  shows "m_k (CalculateK cbrt c) =
           (if Cubic.m_lastMaxCwnd c = 0 then 0
            else cbrt (fl (fl (fl (of_uint32 (Cubic.m_lastMaxCwnd c) / 1460)
                               * (1351079888211149 / 4503599627370496))
                           / (3602879701896397 / 9007199254740992))))"
proof (cases "Cubic.m_lastMaxCwnd c = 0")
  case True
  then show ?thesis by (simp add: CalculateK_def)
next
  case False
  have "0 \<le> fl (of_uint32 (Cubic.m_lastMaxCwnd c) / 1460)"
    by (rule fl_nonneg) (simp add: of_uint32_nonneg)
  then have "0 \<le> fl (fl (of_uint32 (Cubic.m_lastMaxCwnd c) / 1460) * (1351079888211149 / 4503599627370496))"
    by (intro fl_nonneg mult_nonneg_nonneg) (simp_all add: of_uint32_nonneg)
  then have "0 \<le> fl (fl (fl (of_uint32 (Cubic.m_lastMaxCwnd c) / 1460) * (1351079888211149 / 4503599627370496))
                       / (3602879701896397 / 9007199254740992))"
    by (intro fl_nonneg divide_nonneg_nonneg mult_nonneg_nonneg) (simp_all add: of_uint32_nonneg)
  moreover have b: "m_cubicBeta c = 3152519739159347 / 4503599627370496"
    "m_cubicC c = 3602879701896397 / 9007199254740992"
    using assms by (simp_all add: fl_0_7 fl_0_4)
  ultimately show ?thesis
    using False by (simp add: CalculateK_def Let_def b fl_0_3 not_less)
qed

lemma Cubic_GetSsThresh_k:
  assumes "m_cubicBeta c = fl (7 / 10)" and "m_cubicC c = fl (4 / 10)"
  shows "\<exists>c' s'. Cubic_GetSsThresh cbrt c s = Inr (c', s') \<and>
     Cubic.m_lastMaxCwnd c' =
       (if m_fastConvergence c \<and> cwnd s < Cubic.m_lastMaxCwnd c
        then of_nat (13 * unat (cwnd s) div 20) else cwnd s) \<and>
     m_k c' =
       (if Cubic.m_lastMaxCwnd c' = 0 then 0
        else cbrt (fl (fl (fl (of_uint32 (Cubic.m_lastMaxCwnd c') / 1460)
                           * (1351079888211149 / 4503599627370496))
                       / (3602879701896397 / 9007199254740992))))"
proof -
  from Cubic_GetSsThresh_default[OF assms(1), of s cbrt] obtain c0 s' where
    r: "Cubic_GetSsThresh cbrt c s = Inr (CalculateK cbrt c0, s')"
    and c0: "m_cubicBeta c0 = m_cubicBeta c" "m_cubicC c0 = m_cubicC c"
      "Cubic.m_lastMaxCwnd c0 =
         (if m_fastConvergence c \<and> cwnd s < Cubic.m_lastMaxCwnd c
          then of_nat (13 * unat (cwnd s) div 20) else cwnd s)"
    by (auto simp del: of_nat_mult)
  have k: "Cubic.m_lastMaxCwnd (CalculateK cbrt c0) = Cubic.m_lastMaxCwnd c0"
    by (simp add: CalculateK_def Let_def)
  have "m_k (CalculateK cbrt c0) =
           (if Cubic.m_lastMaxCwnd c0 = 0 then 0
            else cbrt (fl (fl (fl (of_uint32 (Cubic.m_lastMaxCwnd c0) / 1460)
                               * (1351079888211149 / 4503599627370496))
                           / (3602879701896397 / 9007199254740992))))"
    by (rule CalculateK_value) (use assms c0 in simp_all)
  with r k c0(3) show ?thesis by (simp only: sum.inject prod.inject simp_thms ex_simps)
qed

text \<open>
  Claim C7, as stated, fails.  \<^verbatim>\<open>CalculateK\<close> converts the remembered maximum to segments
  by dividing by \<open>1460.0\<close>, whatever the MSS of the socket: with \<open>MSS = 1000\<close> and a
  reduction that leaves \<open>m_lastMaxCwnd = 100000\<close> bytes, \<open>W = 100\<close> segments, the argument
  of the cube root is about \<open>51.37\<close> and not \<open>100 \<times> 0.3 / 0.4 = 75\<close>.  The argument is
  computed in \<^verbatim>\<open>double\<close> arithmetic: with \<open>MSS = 1460\<close> and \<open>W = 10\<close> segments it is
  \<open>7.5 + 2\<^sup>-\<^sup>5\<^sup>0\<close>, not \<open>7.5\<close>.
\<close>

theorem C7_counterexample:
  "map_sum id (m_k \<circ> fst)
     (Cubic_GetSsThresh (root 3) (Cubic_new 0)
        \<lparr>cwnd = 100000, ssthresh = 0x7fffffff, mss_bytes = 1000, rtt_us = 0,
         tcp_state = CongestionAvoidance, congestion_event = OtherEvent\<rparr>)
     = Inr (root 3 (3614832748852603 / 70368744177664)) \<and>
   (3614832748852603 / 70368744177664 :: real) < 52 \<and>
   root 3 (3614832748852603 / 70368744177664) \<noteq> root 3 (100 * (1 - 7 / 10) / (4 / 10)) \<and>
   map_sum id (m_k \<circ> fst)
     (Cubic_GetSsThresh (root 3) (Cubic_new 0)
        \<lparr>cwnd = 14600, ssthresh = 0x7fffffff, mss_bytes = 1460, rtt_us = 0,
         tcp_state = CongestionAvoidance, congestion_event = OtherEvent\<rparr>)
     = Inr (root 3 (15 / 2 + 1 / 2 ^ 50)) \<and>
   (15 / 2 + 1 / 2 ^ 50 :: real) \<noteq> 10 * (1 - 7 / 10) / (4 / 10)"
proof -
  have d: "m_cubicBeta (Cubic_new 0) = fl (7 / 10)" "m_cubicC (Cubic_new 0) = fl (4 / 10)"
    by (simp_all add: Cubic_new_def)
  have f1: "fl (fl (fl (of_uint32 100000 / 1460) * (1351079888211149 / 4503599627370496))
                / (3602879701896397 / 9007199254740992)) = 3614832748852603 / 70368744177664"
    by (simp add: of_uint32_def fl_def expo_def compute_floorlog round_even_def Let_def)
  have f2: "fl (fl (fl (of_uint32 14600 / 1460) * (1351079888211149 / 4503599627370496))
                / (3602879701896397 / 9007199254740992)) = 8444249301319681 / 1125899906842624"
    by (simp add: of_uint32_def fl_def expo_def compute_floorlog round_even_def Let_def)
  from Cubic_GetSsThresh_k[OF d, of "root 3"
      "\<lparr>cwnd = 100000, ssthresh = 0x7fffffff, mss_bytes = 1000, rtt_us = 0,
        tcp_state = CongestionAvoidance, congestion_event = OtherEvent\<rparr>"] f1
  have a: "map_sum id (m_k \<circ> fst)
     (Cubic_GetSsThresh (root 3) (Cubic_new 0)
        \<lparr>cwnd = 100000, ssthresh = 0x7fffffff, mss_bytes = 1000, rtt_us = 0,
         tcp_state = CongestionAvoidance, congestion_event = OtherEvent\<rparr>)
     = Inr (root 3 (3614832748852603 / 70368744177664))"
    by (auto simp: Cubic_new_def)
  from Cubic_GetSsThresh_k[OF d, of "root 3"
      "\<lparr>cwnd = 14600, ssthresh = 0x7fffffff, mss_bytes = 1460, rtt_us = 0,
        tcp_state = CongestionAvoidance, congestion_event = OtherEvent\<rparr>"] f2
  have b: "map_sum id (m_k \<circ> fst)
     (Cubic_GetSsThresh (root 3) (Cubic_new 0)
        \<lparr>cwnd = 14600, ssthresh = 0x7fffffff, mss_bytes = 1460, rtt_us = 0,
         tcp_state = CongestionAvoidance, congestion_event = OtherEvent\<rparr>)
     = Inr (root 3 (15 / 2 + 1 / 2 ^ 50))"
    by (auto simp: Cubic_new_def)
  show ?thesis using a b by simp
qed

text \<open>
  Claim C7, amended.  With \<open>\<beta> = 0.7\<close> and \<open>C = 0.4\<close> (the doubles nearest to them), the
  reduction computed by \<^verbatim>\<open>GetSsThresh\<close> returns, and with \<open>W\<close> the new \<open>m_lastMaxCwnd\<close> in
  units of 1460 bytes (the source divides by \<open>1460.0\<close>, whatever the MSS of the socket):
  the inflection time \<open>m_k\<close> is \<open>0\<close> when \<open>W = 0\<close>, and otherwise the library cube root of
  the \<^verbatim>\<open>double\<close> \<open>a\<close> that the source computes for \<open>W \<times> (1 - \<beta>) / C\<close>, which differs from
  \<open>W \<times> (1 - 0.7) / 0.4\<close> by at most \<open>2\<^sup>-\<^sup>5\<^sup>0\<close> of it.  Evaluating
  \<^verbatim>\<open>CubicWindowCalculation\<close> at \<open>t = m_k\<close> yields \<open>m_lastMaxCwnd\<close> exactly.
\<close>

theorem C7_cubic_inflection:
  assumes "m_cubicBeta c = fl (7 / 10)" and "m_cubicC c = fl (4 / 10)"
  shows "\<exists>c' s' a. Cubic_GetSsThresh cbrt c s = Inr (c', s') \<and>
     a = fl (fl (fl (of_uint32 (Cubic.m_lastMaxCwnd c') / 1460) * fl (1 - fl (7 / 10))) / fl (4 / 10)) \<and>
     m_k c' = (if Cubic.m_lastMaxCwnd c' = 0 then 0 else cbrt a) \<and>
     \<bar>a - of_uint32 (Cubic.m_lastMaxCwnd c') / 1460 * (1 - 7 / 10) / (4 / 10)\<bar>
       \<le> of_uint32 (Cubic.m_lastMaxCwnd c') / 1460 * (1 - 7 / 10) / (4 / 10) / 2 ^ 50 \<and>
     CubicWindowCalculation c' (m_k c') = Inr (Cubic.m_lastMaxCwnd c')"
proof -
  from Cubic_GetSsThresh_k[OF assms, of cbrt s] obtain c' s' where
    r: "Cubic_GetSsThresh cbrt c s = Inr (c', s')"
    and k: "m_k c' =
       (if Cubic.m_lastMaxCwnd c' = 0 then 0
        else cbrt (fl (fl (fl (of_uint32 (Cubic.m_lastMaxCwnd c') / 1460)
                           * (1351079888211149 / 4503599627370496))
                       / (3602879701896397 / 9007199254740992))))"
    by blast
  define a where "a = fl (fl (fl (of_uint32 (Cubic.m_lastMaxCwnd c') / 1460)
                           * (1351079888211149 / 4503599627370496))
                       / (3602879701896397 / 9007199254740992))"
  have e: "fl (1 - fl (7 / 10)) = 1351079888211149 / 4503599627370496"
    "fl (4 / 10) = 3602879701896397 / 9007199254740992"
    by (simp_all add: fl_0_7 fl_0_4 fl_0_3)
  have a': "a = fl (fl (fl (of_uint32 (Cubic.m_lastMaxCwnd c') / 1460) * fl (1 - fl (7 / 10))) / fl (4 / 10))"
    unfolding e by (simp only: a_def)
  have x: "0 \<le> of_uint32 (Cubic.m_lastMaxCwnd c') / 1460"
    by (simp add: of_uint32_nonneg)
  have b: "\<bar>a - of_uint32 (Cubic.m_lastMaxCwnd c') / 1460 * (1 - 7 / 10) / (4 / 10)\<bar>
       \<le> of_uint32 (Cubic.m_lastMaxCwnd c') / 1460 * (1 - 7 / 10) / (4 / 10) / 2 ^ 50"
    unfolding a_def by (rule k_cubed_bounds[OF x])
  have w: "CubicWindowCalculation c' (m_k c') = Inr (Cubic.m_lastMaxCwnd c')"
    by (rule CubicWindowCalculation_at_K)
  have k': "m_k c' = (if Cubic.m_lastMaxCwnd c' = 0 then 0 else cbrt a)"
    using k by (simp only: a_def)
  from r a' k' b w show ?thesis by blast
qed

theorem C7_cubic_inflection_witness:
  "\<exists>c' s' a. Cubic_GetSsThresh (root 3) (Cubic_new 0)
        \<lparr>cwnd = 14600, ssthresh = 0x7fffffff, mss_bytes = 1460, rtt_us = 0,
         tcp_state = CongestionAvoidance, congestion_event = OtherEvent\<rparr> = Inr (c', s') \<and>
     a = fl (fl (fl (of_uint32 (Cubic.m_lastMaxCwnd c') / 1460) * fl (1 - fl (7 / 10))) / fl (4 / 10)) \<and>
     m_k c' = (if Cubic.m_lastMaxCwnd c' = 0 then 0 else root 3 a) \<and>
     \<bar>a - of_uint32 (Cubic.m_lastMaxCwnd c') / 1460 * (1 - 7 / 10) / (4 / 10)\<bar>
       \<le> of_uint32 (Cubic.m_lastMaxCwnd c') / 1460 * (1 - 7 / 10) / (4 / 10) / 2 ^ 50 \<and>
     CubicWindowCalculation c' (m_k c') = Inr (Cubic.m_lastMaxCwnd c')"
  using C7_cubic_inflection [of "Cubic_new 0" "root 3"
      "\<lparr>cwnd = 14600, ssthresh = 0x7fffffff, mss_bytes = 1460, rtt_us = 0,
        tcp_state = CongestionAvoidance, congestion_event = OtherEvent\<rparr>"]
  by (simp add: Cubic_new_def)

section \<open>Timeout and packet loss\<close>

lemma BIC_Timeout:
  assumes "BIC.m_beta b = fl (4 / 5)"
  shows "\<exists>b' s'. BIC_CwndEvent now b s Timeout = Inr (b', s') \<and> cwnd s' = mss_bytes s \<and>
           tcp_state s' = Loss \<and> memory_cleared now (UseBIC b')"
  using assms
  by (simp add: BIC_CwndEvent_def Let_def BIC_GetSsThresh_default BicReset_def)

lemma BIC_PacketLoss:
  assumes "BIC.m_beta b = fl (4 / 5)"
  shows "\<exists>b' s'. BIC_CwndEvent now b s PacketLoss = Inr (b', s') \<and> tcp_state s' = Recovery \<and>
           BIC.m_lastMaxCwnd b' = cwnd s"
  using assms
  by (simp add: BIC_CwndEvent_def Let_def BIC_GetSsThresh_default)

lemma CalculateK_fields:
  "Cubic.m_lastMaxCwnd (CalculateK cbrt c) = Cubic.m_lastMaxCwnd c"
  "Cubic.m_ssthresh (CalculateK cbrt c) = Cubic.m_ssthresh c"
  "Cubic.m_maxCwnd (CalculateK cbrt c) = Cubic.m_maxCwnd c"
  "m_cubicBeta (CalculateK cbrt c) = m_cubicBeta c"
  by (simp_all add: CalculateK_def Let_def)

lemma Cubic_Timeout:
  assumes "m_cubicBeta c = fl (7 / 10)"
  shows "\<exists>c' s'. Cubic_CwndEvent cbrt now c s Timeout = Inr (c', s') \<and> cwnd s' = mss_bytes s \<and>
           tcp_state s' = Loss \<and> memory_cleared now (UseCUBIC c')"
proof -
  from Cubic_GetSsThresh_default[OF assms, of "s\<lparr>congestion_event := Timeout\<rparr>" cbrt]
  obtain c0 s0 where r: "Cubic_GetSsThresh cbrt c (s\<lparr>congestion_event := Timeout\<rparr>) = Inr (c0, s0)"
    and s0: "mss_bytes s0 = mss_bytes s" by auto
  show ?thesis
    by (simp add: Cubic_CwndEvent_def Let_def r CubicReset_def s0)
qed

lemma Cubic_PacketLoss:
  assumes "m_cubicBeta c = fl (7 / 10)"
  shows "\<exists>c' s'. Cubic_CwndEvent cbrt now c s PacketLoss = Inr (c', s') \<and> tcp_state s' = Recovery \<and>
           Cubic.m_lastMaxCwnd c' =
             (if m_fastConvergence c \<and> cwnd s < Cubic.m_lastMaxCwnd c
              then of_nat (13 * unat (cwnd s) div 20) else cwnd s)"
proof -
  from Cubic_GetSsThresh_default[OF assms, of "s\<lparr>congestion_event := PacketLoss\<rparr>" cbrt]
  obtain c0 s0 where r: "Cubic_GetSsThresh cbrt c (s\<lparr>congestion_event := PacketLoss\<rparr>) = Inr (c0, s0)"
    and c0: "Cubic.m_lastMaxCwnd c0 =
             (if m_fastConvergence c \<and> cwnd s < Cubic.m_lastMaxCwnd c
              then of_nat (13 * unat (cwnd s) div 20) else cwnd s)"
    by (auto simp: CalculateK_fields simp del: of_nat_mult)
  show ?thesis
    by (simp add: Cubic_CwndEvent_def Let_def r c0 del: of_nat_mult)
qed

lemma fast_convergence_floor:
  "unat (of_nat (13 * unat w div 20) :: u32) = nat \<lfloor>real (unat (w :: u32)) * (2 - 7 / 10) / 2\<rfloor>"
proof -
  define n where "n = unat w"
  have "real n * (2 - 7 / 10) / 2 = real (13 * n) / real 20" by simp
  then have "\<lfloor>real n * (2 - 7 / 10) / 2\<rfloor> = int (13 * n div 20)"
    by (simp only: floor_divide_of_nat_eq)
  then have f: "nat \<lfloor>real n * (2 - 7 / 10) / 2\<rfloor> = 13 * n div 20" by simp
  have "n < 2 ^ 32" unfolding n_def using unsigned_less[of w, where ?'a = nat] by simp
  then have "13 * n div 20 < 2 ^ 32" by simp
  then have "unat (of_nat (13 * n div 20) :: u32) = 13 * n div 20"
    by (simp add: unat_of_nat del: of_nat_mult)
  with f show ?thesis by (simp only: n_def)
qed

text \<open>
  Claim C2, as stated, fails in its second half.  Under CUBIC with fast convergence, a
  \<open>PacketLoss\<close> at a window of \<open>10000\<close> bytes below the remembered maximum \<open>20000\<close>
  lowers \<open>m_lastMaxCwnd\<close> to \<open>6500\<close>.  Under BIC, \<^verbatim>\<open>CwndEvent\<close> keeps the larger of
  \<open>m_lastMaxCwnd\<close> and the window and then calls \<^verbatim>\<open>GetSsThresh\<close>, whose first statement
  stores the window in \<open>m_lastMaxCwnd\<close>: the same loss leaves \<open>10000\<close> there.  Neither
  keeps \<open>max(lastMaxCwnd, cwnd) = 20000\<close>.
\<close>

theorem C2_counterexample:
  "map_sum id (lastMaxCwnd \<circ> fst)
     (CwndEvent (root 3) 0
        (UseCUBIC ((Cubic_new 0)\<lparr>Cubic.m_lastMaxCwnd := 20000\<rparr>),
         Some \<lparr>cwnd = 10000, ssthresh = 0x7fffffff, mss_bytes = 1460, rtt_us = 0,
               tcp_state = CongestionAvoidance, congestion_event = OtherEvent\<rparr>) PacketLoss)
     = Inr 6500 \<and>
   (6500 :: u32) \<noteq> max 20000 10000 \<and>
   map_sum id (lastMaxCwnd \<circ> fst)
     (CwndEvent (root 3) 0
        (UseBIC ((BIC_new 0)\<lparr>BIC.m_lastMaxCwnd := 20000\<rparr>),
         Some \<lparr>cwnd = 10000, ssthresh = 0x7fffffff, mss_bytes = 1460, rtt_us = 0,
               tcp_state = CongestionAvoidance, congestion_event = OtherEvent\<rparr>) PacketLoss)
     = Inr 10000 \<and>
   (10000 :: u32) \<noteq> max 20000 10000"
proof -
  have "m_cubicBeta ((Cubic_new 0)\<lparr>Cubic.m_lastMaxCwnd := 20000\<rparr>) = fl (7 / 10)"
    by (simp add: Cubic_new_def)
  from Cubic_PacketLoss[OF this, of "root 3" 0
      "\<lparr>cwnd = 10000, ssthresh = 0x7fffffff, mss_bytes = 1460, rtt_us = 0,
        tcp_state = CongestionAvoidance, congestion_event = OtherEvent\<rparr>"]
  have c: "map_sum id (lastMaxCwnd \<circ> fst)
     (CwndEvent (root 3) 0
        (UseCUBIC ((Cubic_new 0)\<lparr>Cubic.m_lastMaxCwnd := 20000\<rparr>),
         Some \<lparr>cwnd = 10000, ssthresh = 0x7fffffff, mss_bytes = 1460, rtt_us = 0,
               tcp_state = CongestionAvoidance, congestion_event = OtherEvent\<rparr>) PacketLoss)
     = Inr 6500"
    by (auto simp: as_strategy_def on_socket_def Cubic_new_def)
  have "BIC.m_beta ((BIC_new 0)\<lparr>BIC.m_lastMaxCwnd := 20000\<rparr>) = fl (4 / 5)"
    by (simp add: BIC_new_def)
  from BIC_PacketLoss[OF this, of 0
      "\<lparr>cwnd = 10000, ssthresh = 0x7fffffff, mss_bytes = 1460, rtt_us = 0,
        tcp_state = CongestionAvoidance, congestion_event = OtherEvent\<rparr>"]
  have b: "map_sum id (lastMaxCwnd \<circ> fst)
     (CwndEvent (root 3) 0
        (UseBIC ((BIC_new 0)\<lparr>BIC.m_lastMaxCwnd := 20000\<rparr>),
         Some \<lparr>cwnd = 10000, ssthresh = 0x7fffffff, mss_bytes = 1460, rtt_us = 0,
               tcp_state = CongestionAvoidance, congestion_event = OtherEvent\<rparr>) PacketLoss)
     = Inr 10000"
    by (auto simp: as_strategy_def on_socket_def)
  show ?thesis using b c by simp
qed

text \<open>
  Claim C2, amended.  For BIC and CUBIC with the \<open>\<beta>\<close> their constructors set, on every
  prior state of the strategy and the socket: handling \<open>Timeout\<close> returns with the window
  equal to one MSS, the phase \<open>Loss\<close> and the memory of the strategy cleared
  (\<open>memory_cleared\<close>); handling \<open>PacketLoss\<close> returns with the phase \<open>Recovery\<close> and a
  remembered maximum taken from the window at the loss.  Under CUBIC the new
  \<open>lastMaxCwnd\<close> is the integer part of \<open>cwnd \<times> (2 - \<beta>) / 2\<close> when fast convergence is
  enabled and the window is strictly below \<open>lastMaxCwnd\<close>, and the window otherwise.
  Under BIC the new \<open>lastMaxCwnd\<close> is not zero unless the window is, and when the window
  is at least \<open>lastMaxCwnd\<close> it is \<open>max(lastMaxCwnd, cwnd)\<close>.
\<close>

theorem C2_timeout_resets_loss_keeps:
  assumes "case st of UseBIC b \<Rightarrow> BIC.m_beta b = fl (8 / 10)
                    | UseCUBIC c \<Rightarrow> m_cubicBeta c = fl (7 / 10)"
  shows "(\<exists>st' s'. CwndEvent cbrt now (st, Some s) Timeout = Inr (st', Some s') \<and>
            cwnd s' = mss_bytes s \<and> tcp_state s' = Loss \<and> memory_cleared now st') \<and>
         (\<exists>st' s'. CwndEvent cbrt now (st, Some s) PacketLoss = Inr (st', Some s') \<and>
            tcp_state s' = Recovery \<and>
            (case st of
               UseBIC b \<Rightarrow>
                 (cwnd s \<noteq> 0 \<longrightarrow> lastMaxCwnd st' \<noteq> 0) \<and>
                 (BIC.m_lastMaxCwnd b \<le> cwnd s \<longrightarrow>
                    lastMaxCwnd st' = max (BIC.m_lastMaxCwnd b) (cwnd s))
             | UseCUBIC c \<Rightarrow>
                 unat (lastMaxCwnd st') =
                   (if m_fastConvergence c \<and> cwnd s < Cubic.m_lastMaxCwnd c
                    then nat \<lfloor>real (unat (cwnd s)) * (2 - 7 / 10) / 2\<rfloor>
                    else unat (cwnd s))))"
proof (cases st)
  case (UseBIC b)
  then have b: "BIC.m_beta b = fl (4 / 5)" using assms by simp
  from BIC_Timeout[OF b, of now s] BIC_PacketLoss[OF b, of now s] UseBIC
  show ?thesis
    by (auto simp: as_strategy_def on_socket_def max_def)
next
  case (UseCUBIC c)
  then have b: "m_cubicBeta c = fl (7 / 10)" using assms by simp
  from Cubic_Timeout[OF b, of cbrt now s] obtain c1 s1 where
    t: "Cubic_CwndEvent cbrt now c s Timeout = Inr (c1, s1)" "cwnd s1 = mss_bytes s"
       "tcp_state s1 = Loss" "memory_cleared now (UseCUBIC c1)" by blast
  from Cubic_PacketLoss[OF b, of cbrt now s] obtain c2 s2 where
    p: "Cubic_CwndEvent cbrt now c s PacketLoss = Inr (c2, s2)" "tcp_state s2 = Recovery"
       "Cubic.m_lastMaxCwnd c2 =
             (if m_fastConvergence c \<and> cwnd s < Cubic.m_lastMaxCwnd c
              then of_nat (13 * unat (cwnd s) div 20) else cwnd s)" by blast
  have "unat (Cubic.m_lastMaxCwnd c2) =
          (if m_fastConvergence c \<and> cwnd s < Cubic.m_lastMaxCwnd c
           then nat \<lfloor>real (unat (cwnd s)) * (2 - 7 / 10) / 2\<rfloor>
           else unat (cwnd s))"
    unfolding p(3) by (simp only: fast_convergence_floor if_distrib[of unat] cong: if_cong)
  then show ?thesis
    unfolding UseCUBIC using t p(1,2)
    by (simp add: as_strategy_def on_socket_def)
qed

theorem C2_timeout_resets_loss_keeps_witness:
  "(\<exists>st' s'. CwndEvent (root 3) 9
       (UseBIC ((BIC_new 0)\<lparr>BIC.m_lastMaxCwnd := 20000\<rparr>),
        Some \<lparr>cwnd = 30000, ssthresh = 0x7fffffff, mss_bytes = 1460, rtt_us = 0,
              tcp_state = CongestionAvoidance, congestion_event = OtherEvent\<rparr>) Timeout
       = Inr (st', Some s') \<and>
      cwnd s' = 1460 \<and> tcp_state s' = Loss \<and> memory_cleared 9 st') \<and>
   (\<exists>st' s'. CwndEvent (root 3) 9
       (UseBIC ((BIC_new 0)\<lparr>BIC.m_lastMaxCwnd := 20000\<rparr>),
        Some \<lparr>cwnd = 30000, ssthresh = 0x7fffffff, mss_bytes = 1460, rtt_us = 0,
              tcp_state = CongestionAvoidance, congestion_event = OtherEvent\<rparr>) PacketLoss
       = Inr (st', Some s') \<and>
      tcp_state s' = Recovery \<and> lastMaxCwnd st' \<noteq> 0 \<and> lastMaxCwnd st' = 30000) \<and>
   (\<exists>st' s'. CwndEvent (root 3) 9
       (UseCUBIC ((Cubic_new 0)\<lparr>Cubic.m_lastMaxCwnd := 20000\<rparr>),
        Some \<lparr>cwnd = 10000, ssthresh = 0x7fffffff, mss_bytes = 1460, rtt_us = 0,
              tcp_state = CongestionAvoidance, congestion_event = OtherEvent\<rparr>) PacketLoss
       = Inr (st', Some s') \<and>
      tcp_state s' = Recovery \<and> unat (lastMaxCwnd st') = 6500)"
  using
    C2_timeout_resets_loss_keeps [of "UseBIC ((BIC_new 0)\<lparr>BIC.m_lastMaxCwnd := 20000\<rparr>)" "root 3" 9
      "\<lparr>cwnd = 30000, ssthresh = 0x7fffffff, mss_bytes = 1460, rtt_us = 0,
        tcp_state = CongestionAvoidance, congestion_event = OtherEvent\<rparr>"]
    C2_timeout_resets_loss_keeps [of "UseCUBIC ((Cubic_new 0)\<lparr>Cubic.m_lastMaxCwnd := 20000\<rparr>)" "root 3" 9
      "\<lparr>cwnd = 10000, ssthresh = 0x7fffffff, mss_bytes = 1460, rtt_us = 0,
        tcp_state = CongestionAvoidance, congestion_event = OtherEvent\<rparr>"]
  by (simp add: BIC_new_def Cubic_new_def)


section \<open>The window never falls below one segment\<close>

lemma BicUpdate_eq:
  "BicUpdate b s =
    (case udiv ((if \<not> m_foundNewMax b \<or> BIC.m_lastMaxCwnd b = 0
                 then BIC.m_cwnd b + m_maxIncr b * mss_bytes s else BIC.m_lastMaxCwnd b) - BIC.m_cwnd b)
               (mss_bytes s) of
       Inl e \<Rightarrow> Inl e
     | Inr d \<Rightarrow>
        Inr ((\<lambda>b1. if BIC.m_cwnd b1 < m_minWin b1 then b1\<lparr>BIC.m_cwnd := m_minWin b1\<rparr> else b1)
          (if sint (m_maxIncr b) < sint d
           then b\<lparr>BIC.m_ackCount := BIC.m_ackCount b + 1,
                  BIC.m_cwnd := BIC.m_cwnd b + m_maxIncr b * mss_bytes s\<rparr>
           else if 0 < sint d then
             b\<lparr>BIC.m_ackCount := BIC.m_ackCount b + 1,
               BIC.m_cwnd := BIC.m_cwnd b +
                 (if sint (m_minIncr b) < sint d
                  then if sdiv32 d 2 * mss_bytes s < m_minIncr b * mss_bytes s
                       then m_minIncr b * mss_bytes s else sdiv32 d 2 * mss_bytes s
                  else m_minIncr b * mss_bytes s)\<rparr>
           else if \<not> m_foundNewMax b then
             (if BIC.m_cwnd b < BIC.m_cwnd b + m_maxIncr b * mss_bytes s
              then b\<lparr>BIC.m_ackCount := BIC.m_ackCount b + 1, m_foundNewMax := True,
                     BIC.m_lastMaxCwnd := BIC.m_cwnd b,
                     BIC.m_cwnd := BIC.m_cwnd b + m_minIncr b * mss_bytes s\<rparr>
              else b\<lparr>BIC.m_ackCount := BIC.m_ackCount b + 1, m_foundNewMax := True,
                     BIC.m_cwnd := BIC.m_cwnd b + m_maxIncr b * mss_bytes s,
                     BIC.m_lastMaxCwnd := BIC.m_cwnd b + m_maxIncr b * mss_bytes s\<rparr>)
           else
             (if BIC.m_cwnd b < BIC.m_lastMaxCwnd b + m_maxIncr b * mss_bytes s
              then b\<lparr>BIC.m_ackCount := BIC.m_ackCount b + 1,
                     BIC.m_cwnd := BIC.m_cwnd b + m_minIncr b * mss_bytes s\<rparr>
              else b\<lparr>BIC.m_ackCount := BIC.m_ackCount b + 1,
                     BIC.m_cwnd := BIC.m_cwnd b + m_maxIncr b * mss_bytes s,
                     BIC.m_lastMaxCwnd := BIC.m_cwnd b + m_maxIncr b * mss_bytes s\<rparr>))))"
  unfolding BicUpdate_def Let_def
  by (rule sum.case_cong) (simp_all cong: if_cong)

lemma add_keeps_floor:
  assumes "unat (x :: u32) < 2 ^ 31" and "unat y < 2 ^ 31" and "M \<le> x"
  shows "M \<le> x + y"
proof -
  have "unat x + unat y < 2 ^ 32" using assms(1,2) by simp
  then have "unat (x + y) = unat x + unat y"
    by (intro unat_add_lem[THEN iffD1]) simp
  moreover have "unat M \<le> unat x" using assms(3) by (simp add: word_le_nat_alt)
  ultimately show ?thesis by (simp add: word_le_nat_alt)
qed

lemma unat_mult_le: "unat (a * b :: u32) \<le> unat a * unat b"
  by (simp add: unat_word_ariths)

lemma unat_mult_small:
  assumes "unat (a :: u32) \<le> 32" and "unat (m :: u32) \<le> 65535"
  shows "unat (a * m) < 2 ^ 31"
proof -
  have "unat (a * m) \<le> unat a * unat m" by (rule unat_mult_le)
  also have "\<dots> \<le> 32 * 65535" using assms by (rule mult_le_mono)
  finally show ?thesis by simp
qed

lemma sdiv32_half_small:
  assumes "0 < sint d" and "\<not> 32 < sint d"
  shows "unat (sdiv32 d 2) \<le> 32"
proof -
  have "sint d sdiv 2 = sint d div 2" using assms(1) by (simp add: signed_divide_int_def sgn_if)
  then have r: "0 \<le> sint d sdiv 2" "sint d sdiv 2 \<le> 16" using assms by simp_all
  then have "uint (word_of_int (sint d sdiv 2) :: u32) = sint d sdiv 2"
    by (simp add: uint_word_of_int take_bit_int_eq_self)
  then show ?thesis using r by (simp add: sdiv32_def unat_eq_nat_uint)
qed

lemma BicUpdate_floor:
  assumes m: "unat (mss_bytes s) \<le> 65535"
    and c: "mss_bytes s \<le> BIC.m_cwnd b" "unat (BIC.m_cwnd b) < 2 ^ 31"
    and p: "m_maxIncr b = 32" "m_minIncr b = 1"
    and r: "BicUpdate b s = Inr b'"
  shows "mss_bytes s \<le> BIC.m_cwnd b' \<and> BIC.m_maxCwnd b' = BIC.m_maxCwnd b \<and>
         m_maxIncr b' = 32 \<and> m_minIncr b' = 1 \<and> BIC.m_beta b' = BIC.m_beta b"
proof -
  define M where "M = mss_bytes s"
  define w where "w = BIC.m_cwnd b"
  have i32: "unat (32 * M) < 2 ^ 31"
    unfolding M_def by (rule unat_mult_small) (use m in simp_all)
  have i1: "unat M < 2 ^ 31" using m by (simp add: M_def)
  have ih: "unat (sdiv32 d 2 * M) < 2 ^ 31" if "0 < sint d" "\<not> 32 < sint d" for d
    unfolding M_def by (rule unat_mult_small[OF sdiv32_half_small[OF that] m])
  have c': "M \<le> w" "unat w < 2 ^ 31" using c by (simp_all add: M_def w_def)
  have f32: "M \<le> w + 32 * M" by (rule add_keeps_floor[OF c'(2) i32 c'(1)])
  have f1: "M \<le> w + M" by (rule add_keeps_floor[OF c'(2) i1 c'(1)])
  have fh: "M \<le> w + sdiv32 d 2 * M" if "0 < sint d" "\<not> 32 < sint d" for d
    by (rule add_keeps_floor[OF c'(2) ih[OF that] c'(1)])
  have inc: "M \<le> w + (if sint (1::u32) < sint d
                 then if sdiv32 d 2 * M < 1 * M then 1 * M else sdiv32 d 2 * M
                 else 1 * M)" if "0 < sint d" "\<not> 32 < sint d" for d
    using fh[OF that] f1 by simp
  define X where "X = (if \<not> m_foundNewMax b \<or> BIC.m_lastMaxCwnd b = 0
                 then BIC.m_cwnd b + m_maxIncr b * mss_bytes s else BIC.m_lastMaxCwnd b) - BIC.m_cwnd b"
  obtain d where d: "udiv X (mss_bytes s) = Inr d"
  proof (cases "udiv X (mss_bytes s)")
    case (Inl e)
    then have "BicUpdate b s = Inl e"
      unfolding BicUpdate_eq X_def by (simp only: sum.case)
    then show ?thesis using r by simp
  next
    case (Inr d)
    then show ?thesis using that by blast
  qed
  define b1 where "b1 =
     (if sint (32::u32) < sint d then b\<lparr>BIC.m_ackCount := BIC.m_ackCount b + 1, BIC.m_cwnd := w + 32 * M\<rparr>
      else if 0 < sint d then
        b\<lparr>BIC.m_ackCount := BIC.m_ackCount b + 1,
          BIC.m_cwnd := w + (if sint (1::u32) < sint d
                 then if sdiv32 d 2 * M < 1 * M then 1 * M else sdiv32 d 2 * M
                 else 1 * M)\<rparr>
      else if \<not> m_foundNewMax b then
        (if w < w + 32 * M
         then b\<lparr>BIC.m_ackCount := BIC.m_ackCount b + 1, m_foundNewMax := True,
                BIC.m_lastMaxCwnd := w, BIC.m_cwnd := w + 1 * M\<rparr>
         else b\<lparr>BIC.m_ackCount := BIC.m_ackCount b + 1, m_foundNewMax := True,
                BIC.m_cwnd := w + 32 * M, BIC.m_lastMaxCwnd := w + 32 * M\<rparr>)
      else
        (if w < BIC.m_lastMaxCwnd b + 32 * M
         then b\<lparr>BIC.m_ackCount := BIC.m_ackCount b + 1, BIC.m_cwnd := w + 1 * M\<rparr>
         else b\<lparr>BIC.m_ackCount := BIC.m_ackCount b + 1,
                BIC.m_cwnd := w + 32 * M, BIC.m_lastMaxCwnd := w + 32 * M\<rparr>))"
  have "BicUpdate b s = Inr (if BIC.m_cwnd b1 < m_minWin b1 then b1\<lparr>BIC.m_cwnd := m_minWin b1\<rparr> else b1)"
    apply (simp only: BicUpdate_eq X_def[symmetric])
    apply (simp only: d sum.case)
    apply (simp only: b1_def M_def w_def p)
    done
  then have b': "b' = (if BIC.m_cwnd b1 < m_minWin b1 then b1\<lparr>BIC.m_cwnd := m_minWin b1\<rparr> else b1)"
    using r by simp
  have q: "BIC.m_maxCwnd b1 = BIC.m_maxCwnd b \<and> m_maxIncr b1 = 32 \<and> m_minIncr b1 = 1 \<and>
           BIC.m_beta b1 = BIC.m_beta b"
    unfolding b1_def using p by simp
  have "M \<le> BIC.m_cwnd b1"
    unfolding b1_def using f32 f1 inc[of d] by simp
  then have "M \<le> BIC.m_cwnd b'"
    unfolding b' by auto
  moreover have "BIC.m_maxCwnd b' = BIC.m_maxCwnd b \<and> m_maxIncr b' = 32 \<and> m_minIncr b' = 1 \<and>
           BIC.m_beta b' = BIC.m_beta b"
    unfolding b' using q by simp
  ultimately show ?thesis by (simp add: M_def)
qed

lemma le_65535: "unat (M :: u32) \<le> 65535 \<Longrightarrow> M \<le> 65535"
  by (simp add: word_le_nat_alt)

lemma unat_min_65535: "unat (min (x :: u32) 65535) < 2 ^ 31"
proof -
  have "min x 65535 \<le> 65535" by simp
  then have "unat (min x 65535) \<le> 65535" by (simp only: word_le_nat_alt) simp
  then show ?thesis by simp
qed

lemma ack_no_wrap:
  assumes "unat (n :: u32) * unat (M :: u32) < 2 ^ 31" and "unat (x :: u32) < 2 ^ 31" and "M \<le> x"
  shows "M \<le> x + n * M"
proof -
  have "unat (n * M) \<le> unat n * unat M" by (rule unat_mult_le)
  then have "unat (n * M) < 2 ^ 31" using assms(1) by simp
  from add_keeps_floor[OF assms(2) this assms(3)] show ?thesis .
qed

lemma BIC_IncreaseWindow_inv:
  assumes m: "unat (mss_bytes s) \<le> 65535"
    and c: "mss_bytes s \<le> cwnd s" "unat (cwnd s) < 2 ^ 31"
    and p: "BIC.m_maxCwnd b = 65535" "m_maxIncr b = 32" "m_minIncr b = 1"
    and a: "unat n * unat (mss_bytes s) < 2 ^ 31"
    and r: "BIC_IncreaseWindow b s n = Inr (b', s')"
  shows "mss_bytes s' = mss_bytes s \<and> mss_bytes s \<le> cwnd s' \<and> unat (cwnd s') < 2 ^ 31 \<and>
         ssthresh s' = ssthresh s \<and>
         BIC.m_maxCwnd b' = 65535 \<and> m_maxIncr b' = 32 \<and> m_minIncr b' = 1 \<and>
         BIC.m_beta b' = BIC.m_beta b"
proof (cases "n = 0")
  case True
  then show ?thesis using r c p by (simp add: BIC_IncreaseWindow_def)
next
  case n: False
  define b0 where "b0 = b\<lparr>BIC.m_cwnd := cwnd s, BIC.m_ssthresh := ssthresh s\<rparr>"
  have F1: "mss_bytes s \<le> cwnd s + n * mss_bytes s" by (rule ack_no_wrap[OF a c(2) c(1)])
  have F2: "mss_bytes s \<le> 65535" by (rule le_65535[OF m])
  note U = unat_min_65535
  show ?thesis
  proof (cases "tcp_state s = Recovery")
    case True
    then show ?thesis
      using r n p F1 F2 U
      by (auto simp: BIC_IncreaseWindow_def BIC_FastRecovery_def Let_def)
  next
    case nr: False
    show ?thesis
    proof (cases "cwnd s < ssthresh s")
      case True
      then have "mss_bytes s \<le> ssthresh s" using c(1) by simp
      then show ?thesis
        using r n nr p F1 F2 U True
        by (auto simp: BIC_IncreaseWindow_def BIC_SlowStart_def Let_def)
    next
      case False
      from r n nr False obtain b1 where
        u: "BicUpdate b0 s = Inr b1" and
        e: "b' = b1\<lparr>BIC.m_cwnd := min (BIC.m_cwnd b1) (BIC.m_maxCwnd b1)\<rparr>"
           "s' = s\<lparr>cwnd := min (BIC.m_cwnd b1) (BIC.m_maxCwnd b1)\<rparr>"
        by (auto simp: BIC_IncreaseWindow_def BIC_CongestionAvoidance_def Let_def b0_def
                 split: sum.splits)
      have "mss_bytes s \<le> BIC.m_cwnd b1 \<and> BIC.m_maxCwnd b1 = BIC.m_maxCwnd b0 \<and>
            m_maxIncr b1 = 32 \<and> m_minIncr b1 = 1 \<and> BIC.m_beta b1 = BIC.m_beta b0"
        by (rule BicUpdate_floor[OF m _ _ _ _ u]) (use c p in \<open>simp_all add: b0_def\<close>)
      then show ?thesis
        using e p F2 U by (simp add: b0_def)
    qed
  qed
qed

lemma CubicUpdate_step:
  assumes "CubicUpdate now c s = Inr c'"
  shows "(Cubic.m_cwnd c' = Cubic.m_cwnd c \<or> Cubic.m_cwnd c' = Cubic.m_cwnd c + mss_bytes s) \<and>
         Cubic.m_maxCwnd c' = Cubic.m_maxCwnd c \<and> m_cubicBeta c' = m_cubicBeta c"
  using assms
  by (auto simp: CubicUpdate_def Let_def split: sum.splits if_splits prod.splits)

lemma Cubic_IncreaseWindow_inv:
  assumes m: "unat (mss_bytes s) \<le> 65535"
    and c: "mss_bytes s \<le> cwnd s" "unat (cwnd s) < 2 ^ 31"
    and p: "Cubic.m_maxCwnd k = 65535"
    and a: "unat n * unat (mss_bytes s) < 2 ^ 31"
    and r: "Cubic_IncreaseWindow now k s n = Inr (k', s')"
  shows "mss_bytes s' = mss_bytes s \<and> mss_bytes s \<le> cwnd s' \<and> unat (cwnd s') < 2 ^ 31 \<and>
         ssthresh s' = ssthresh s \<and>
         Cubic.m_maxCwnd k' = 65535 \<and> m_cubicBeta k' = m_cubicBeta k"
proof (cases "n = 0")
  case True
  then show ?thesis using r c p by (simp add: Cubic_IncreaseWindow_def)
next
  case n: False
  define k0 where "k0 = k\<lparr>Cubic.m_cwnd := cwnd s, Cubic.m_ssthresh := ssthresh s\<rparr>"
  have F1: "mss_bytes s \<le> cwnd s + n * mss_bytes s" by (rule ack_no_wrap[OF a c(2) c(1)])
  have F2: "mss_bytes s \<le> 65535" by (rule le_65535[OF m])
  have F3: "mss_bytes s \<le> cwnd s + mss_bytes s"
    by (rule add_keeps_floor[OF c(2) _ c(1)]) (use m in simp)
  note U = unat_min_65535
  show ?thesis
  proof (cases "tcp_state s = Recovery")
    case True
    then show ?thesis
      using r n p F1 F2 U
      by (auto simp: Cubic_IncreaseWindow_def Cubic_FastRecovery_def Let_def)
  next
    case nr: False
    show ?thesis
    proof (cases "cwnd s < ssthresh s")
      case True
      then have "mss_bytes s \<le> ssthresh s" using c(1) by simp
      then show ?thesis
        using r n nr p F1 F2 U True
        by (auto simp: Cubic_IncreaseWindow_def Cubic_SlowStart_def Let_def split: if_splits)
    next
      case False
      from r n nr False obtain k1 where
        u: "CubicUpdate now k0 s = Inr k1" and
        e: "k' = k1\<lparr>Cubic.m_cwnd := min (Cubic.m_cwnd k1) (Cubic.m_maxCwnd k1)\<rparr>"
           "s' = s\<lparr>cwnd := min (Cubic.m_cwnd k1) (Cubic.m_maxCwnd k1)\<rparr>"
        by (auto simp: Cubic_IncreaseWindow_def Cubic_CongestionAvoidance_def Let_def k0_def
                 split: sum.splits)
      from CubicUpdate_step[OF u]
      have "mss_bytes s \<le> Cubic.m_cwnd k1" "Cubic.m_maxCwnd k1 = 65535"
           "m_cubicBeta k1 = m_cubicBeta k"
        using c(1) F3 p by (auto simp: k0_def)
      then show ?thesis
        using e F2 U by simp
    qed
  qed
qed

lemma threshold_facts:
  assumes "unat (M :: u32) \<le> 65535" and "unat (v :: u32) < 2 ^ 31"
  shows "M \<le> max v (2 * M) \<and> unat (max v (2 * M)) < 2 ^ 31 \<and> 2 * unat M \<le> unat (max v (2 * M))"
proof -
  have "unat (2 * M) = unat (2 :: u32) * unat M"
    by (intro unat_mult_lem[THEN iffD1]) (use assms(1) in simp)
  then have u: "unat (2 * M) = 2 * unat M" by simp
  then have "unat M \<le> unat (2 * M)" by simp
  then have l: "M \<le> 2 * M" by (simp only: word_le_nat_alt)
  have "unat (2 * M) < 2 ^ 31" using u assms(1) by simp
  then have "unat (max v (2 * M)) < 2 ^ 31" using assms(2) by (simp add: max_def)
  moreover have "2 * M \<le> max v (2 * M)" by simp
  then have "2 * unat M \<le> unat (max v (2 * M))" using u by (simp add: word_le_nat_alt)
  moreover have "M \<le> max v (2 * M)" using l by (simp add: le_max_iff_disj)
  ultimately show ?thesis by simp
qed

lemma BIC_CwndEvent_inv:
  assumes m: "unat (mss_bytes s) \<le> 65535"
    and c: "mss_bytes s \<le> cwnd s" "unat (cwnd s) < 2 ^ 31"
    and p: "BIC.m_beta b = fl (4 / 5)"
    and r: "BIC_CwndEvent now b s ev = Inr (b', s')"
  shows "mss_bytes s' = mss_bytes s \<and> mss_bytes s \<le> cwnd s' \<and> unat (cwnd s') < 2 ^ 31 \<and>
         BIC.m_maxCwnd b' = BIC.m_maxCwnd b \<and> m_maxIncr b' = m_maxIncr b \<and>
         m_minIncr b' = m_minIncr b \<and> BIC.m_beta b' = BIC.m_beta b \<and>
         (ev = PacketLoss \<or> ev = Timeout \<or> ev = ECN \<longrightarrow>
            2 * unat (mss_bytes s) \<le> unat (ssthresh s'))"
proof -
  define v :: u32 where "v = of_nat (4 * unat (cwnd s) div 5)"
  have "4 * unat (cwnd s) div 5 < 2 ^ 31" using c(2) by simp
  then have "unat v = 4 * unat (cwnd s) div 5"
    unfolding v_def by (simp add: unat_of_nat del: of_nat_mult)
  then have "unat v < 2 ^ 31" using c(2) by simp
  note T = threshold_facts[OF m this]
  have i1: "unat (mss_bytes s) < 2 ^ 31" using m by simp
  show ?thesis
    using r c p T i1
    by (cases ev)
       (simp_all add: BIC_CwndEvent_def Let_def BIC_GetSsThresh_default BicReset_def
          v_def[symmetric] del: of_nat_mult, auto)
qed

lemma Cubic_CwndEvent_inv:
  assumes m: "unat (mss_bytes s) \<le> 65535"
    and c: "mss_bytes s \<le> cwnd s" "unat (cwnd s) < 2 ^ 31"
    and p: "m_cubicBeta k = fl (7 / 10)"
    and r: "Cubic_CwndEvent cbrt now k s ev = Inr (k', s')"
  shows "mss_bytes s' = mss_bytes s \<and> mss_bytes s \<le> cwnd s' \<and> unat (cwnd s') < 2 ^ 31 \<and>
         Cubic.m_maxCwnd k' = Cubic.m_maxCwnd k \<and> m_cubicBeta k' = m_cubicBeta k \<and>
         (ev = PacketLoss \<or> ev = Timeout \<or> ev = ECN \<longrightarrow>
            2 * unat (mss_bytes s) \<le> unat (ssthresh s'))"
proof -
  from Cubic_GetSsThresh_default[OF p, of "s\<lparr>congestion_event := ev\<rparr>" cbrt]
  obtain v k0 where v: "unat v \<le> unat (cwnd s)"
    and g: "Cubic_GetSsThresh cbrt k (s\<lparr>congestion_event := ev\<rparr>) =
              Inr (k0, s\<lparr>congestion_event := ev, ssthresh := max v (2 * mss_bytes s)\<rparr>)"
    and k0: "Cubic.m_ssthresh k0 = max v (2 * mss_bytes s)" "Cubic.m_maxCwnd k0 = Cubic.m_maxCwnd k"
      "m_cubicBeta k0 = m_cubicBeta k"
    by (auto simp: CalculateK_fields simp del: of_nat_mult)
  have "unat v < 2 ^ 31" using v c(2) by simp
  note T = threshold_facts[OF m this]
  have i1: "unat (mss_bytes s) < 2 ^ 31" using m by simp
  show ?thesis
    using r c T i1 k0 g
    by (cases ev)
       (simp_all add: Cubic_CwndEvent_def Let_def CubicReset_def, auto)
qed

lemma Dispatch_inv:
  assumes m: "unat M \<le> 65535"
    and ok: "conn_ok M conn"
    and a: "unat (ack_segments e) * unat M < 2 ^ 31"
    and r: "Dispatch cbrt conn (t, e) = Inr conn'"
  shows "conn_ok M conn' \<and>
         (is_reduction e \<longrightarrow> (\<exists>h. threshold conn' = Some h \<and> 2 * unat M \<le> unat h))"
proof -
  from ok obtain st s where conn: "conn = (st, Some s)"
    and s: "mss_bytes s = M" "M \<le> cwnd s" "unat (cwnd s) < 2 ^ 31"
    and dp: "default_parameters st"
    by (cases conn; cases "snd conn") auto
  have m': "unat (mss_bytes s) \<le> 65535" and c': "mss_bytes s \<le> cwnd s"
    using m s by simp_all
  show ?thesis
  proof (cases st)
    case (UseBIC b)
    with dp have p: "BIC.m_maxCwnd b = 65535" "m_maxIncr b = 32" "m_minIncr b = 1"
      "BIC.m_beta b = fl (4 / 5)" by simp_all
    show ?thesis
    proof (cases e)
      case (Acked n)
      with r conn UseBIC obtain b' s' where
        i: "BIC_IncreaseWindow b s n = Inr (b', s')" and c: "conn' = (UseBIC b', Some s')"
        by (auto simp: as_strategy_def on_socket_def split: sum.splits)
      have "unat n * unat (mss_bytes s) < 2 ^ 31" using a Acked s by simp
      from BIC_IncreaseWindow_inv[OF m' c' s(3) p(1-3) this i]
      show ?thesis using c p s Acked by simp
    next
      case (RttSample n rtt)
      with r conn UseBIC s p show ?thesis
        by (auto simp: as_strategy_def on_socket_def BIC_PktsAcked_def)
    next
      case (Signal ev)
      with r conn UseBIC obtain b' s' where
        i: "BIC_CwndEvent t b s ev = Inr (b', s')" and c: "conn' = (UseBIC b', Some s')"
        by (auto simp: as_strategy_def on_socket_def split: sum.splits)
      from BIC_CwndEvent_inv[OF m' c' s(3) p(4) i]
      show ?thesis using c p s Signal by (cases ev) (simp_all add: threshold_def)
    qed
  next
    case (UseCUBIC k)
    with dp have p: "Cubic.m_maxCwnd k = 65535" "m_cubicBeta k = fl (7 / 10)" by simp_all
    show ?thesis
    proof (cases e)
      case (Acked n)
      with r conn UseCUBIC obtain k' s' where
        i: "Cubic_IncreaseWindow t k s n = Inr (k', s')" and c: "conn' = (UseCUBIC k', Some s')"
        by (auto simp: as_strategy_def on_socket_def split: sum.splits)
      have "unat n * unat (mss_bytes s) < 2 ^ 31" using a Acked s by simp
      from Cubic_IncreaseWindow_inv[OF m' c' s(3) p(1) this i]
      show ?thesis using c p s Acked by simp
    next
      case (RttSample n rtt)
      with r conn UseCUBIC s p show ?thesis
        by (auto simp: as_strategy_def on_socket_def Cubic_PktsAcked_def Let_def split: if_splits)
    next
      case (Signal ev)
      with r conn UseCUBIC obtain k' s' where
        i: "Cubic_CwndEvent cbrt t k s ev = Inr (k', s')" and c: "conn' = (UseCUBIC k', Some s')"
        by (auto simp: as_strategy_def on_socket_def split: sum.splits)
      from Cubic_CwndEvent_inv[OF m' c' s(3) p(2) i]
      show ?thesis using c p s Signal by (cases ev) (simp_all add: threshold_def)
    qed
  qed
qed

lemma run_inv:
  assumes m: "unat M \<le> 65535"
  shows "conn_ok M conn \<Longrightarrow>
         \<forall>e\<in>set evs. unat (ack_segments (snd e)) * unat M < 2 ^ 31 \<Longrightarrow>
         run cbrt conn evs = Inr cs \<Longrightarrow>
         length cs = length evs \<and>
         (\<forall>i<length evs. conn_ok M (cs ! i) \<and>
            (is_reduction (snd (evs ! i)) \<longrightarrow>
               (\<exists>h. threshold (cs ! i) = Some h \<and> 2 * unat M \<le> unat h)))"
proof (induction evs arbitrary: conn cs)
  case Nil
  then show ?case by simp
next
  case (Cons e es)
  obtain t ev where e: "e = (t, ev)" by (cases e)
  from Cons.prems(3) obtain conn' cs' where
    d: "Dispatch cbrt conn (t, ev) = Inr conn'" and
    r: "run cbrt conn' es = Inr cs'" and cs: "cs = conn' # cs'"
    by (auto simp: e split: sum.splits)
  have a: "unat (ack_segments ev) * unat M < 2 ^ 31" using Cons.prems(2) e by simp
  from Dispatch_inv[OF m Cons.prems(1) a d]
  have h: "conn_ok M conn'"
    "is_reduction ev \<longrightarrow> (\<exists>h. threshold conn' = Some h \<and> 2 * unat M \<le> unat h)"
    by simp_all
  have "\<forall>e\<in>set es. unat (ack_segments (snd e)) * unat M < 2 ^ 31" using Cons.prems(2) by simp
  from Cons.IH[OF h(1) this r]
  have ih: "length cs' = length es"
    "\<forall>i<length es. conn_ok M (cs' ! i) \<and>
            (is_reduction (snd (es ! i)) \<longrightarrow>
               (\<exists>h. threshold (cs' ! i) = Some h \<and> 2 * unat M \<le> unat h))"
    by simp_all
  show ?case
  proof (intro conjI allI impI)
    show "length cs = length (e # es)" using ih(1) cs by simp
  next
    fix i assume "i < length (e # es)"
    then show "conn_ok M (cs ! i)"
      using h(1) ih(2) cs by (cases i) simp_all
  next
    fix i assume "i < length (e # es)" and "is_reduction (snd ((e # es) ! i))"
    then show "\<exists>h. threshold (cs ! i) = Some h \<and> 2 * unat M \<le> unat h"
      using h(2) ih(2) cs e by (cases i) simp_all
  qed
qed

lemma CalculateK_other_fields:
  "Cubic.m_cwnd (CalculateK cbrt c) = Cubic.m_cwnd c"
  "Cubic.m_lastCwnd (CalculateK cbrt c) = Cubic.m_lastCwnd c"
  "m_cubicC (CalculateK cbrt c) = m_cubicC c"
  "m_fastConvergence (CalculateK cbrt c) = m_fastConvergence c"
  "m_tcpFriendly (CalculateK cbrt c) = m_tcpFriendly c"
  "m_tcpCwnd (CalculateK cbrt c) = m_tcpCwnd c"
  "Cubic.m_epochStart (CalculateK cbrt c) = Cubic.m_epochStart c"
  "m_lastTime (CalculateK cbrt c) = m_lastTime c"
  "Cubic.m_ackCount (CalculateK cbrt c) = Cubic.m_ackCount c"
  "m_cntRtt (CalculateK cbrt c) = m_cntRtt c"
  "m_delayMin (CalculateK cbrt c) = m_delayMin c"
  "m_hystartEnabled (CalculateK cbrt c) = m_hystartEnabled c"
  "m_hystartAckDelta (CalculateK cbrt c) = m_hystartAckDelta c"
  "m_hystartDelayMin (CalculateK cbrt c) = m_hystartDelayMin c"
  "m_hystartDelayMax (CalculateK cbrt c) = m_hystartDelayMax c"
  by (simp_all add: CalculateK_def Let_def)

lemma cubic_product_14600:
  "to_uint32 (fl (of_uint32 14600 * 3152519739159347 / 4503599627370496)) = Inr 10220"
  by (simp add: of_uint32_def fl_def expo_def compute_floorlog round_even_def Let_def to_uint32_def)

lemma VegasUpdate_floor:
  assumes "VegasUpdate v m = Inr v'"
    and "2 * unat m \<le> unat (Vegas.m_cwnd v)"
    and "unat (Vegas.m_cwnd v) + unat m < 2 ^ 32"
  shows "unat m \<le> unat (Vegas.m_cwnd v')"
proof -
  have a: "unat (Vegas.m_cwnd v + m) = unat (Vegas.m_cwnd v) + unat m"
    by (rule unat_add_lem[THEN iffD1]) (use assms(3) in simp)
  have s: "unat (Vegas.m_cwnd v - m) = unat (Vegas.m_cwnd v) - unat m"
    using assms(2) by (simp add: unat_sub word_le_nat_alt)
  from assms(1) have "Vegas.m_cwnd v' = Vegas.m_cwnd v + m \<or> Vegas.m_cwnd v' = Vegas.m_cwnd v - m
      \<or> Vegas.m_cwnd v' = Vegas.m_cwnd v"
    by (auto simp: VegasUpdate_def split: sum.splits if_splits)
  then show ?thesis using a s assms(2) by auto
qed

text \<open>
  Claim C1, as stated, fails.  From a fresh BIC connection with \<open>MSS = 1460\<close> and a window
  of one segment, one \<open>Acked\<close> event of \<open>2941758\<close> segments wraps the 32-bit sum in
  \<^verbatim>\<open>SlowStart\<close> and leaves a window of \<open>844\<close> bytes.  With \<open>MSS = 70000\<close>, above the bound
  \<open>m_maxCwnd = 65535\<close>, one \<open>Acked\<close> event leaves a window of \<open>65535\<close> bytes.  Under
  CUBIC, after a \<open>Timeout\<close> has left \<open>ssthresh = 10220\<close>, two round-trip samples that
  differ by more than \<open>m_hystartAckDelta\<close> make the hybrid slow start set \<open>ssthresh\<close> to
  \<open>m_cwnd\<close>, one segment: the threshold is at least \<open>2 \<times> MSS\<close> right after a reduction,
  not from then on.  Under Vegas the decrease \<^verbatim>\<open>m_cwnd -= mss\<close> has no floor: from a window
  of one segment, with \<open>diff = 9 > \<beta> = 4\<close>, one step leaves a window of \<open>0\<close> bytes; and its
  increase is the sum of \<^verbatim>\<open>uint32_t\<close>: from \<open>4294966000\<close> bytes it wraps to \<open>164\<close>.
\<close>

theorem C1_counterexample:
  "map_sum id (map window)
     (run (root 3)
        (UseBIC (BIC_new 0),
         Some \<lparr>cwnd = 1460, ssthresh = 0x7fffffff, mss_bytes = 1460, rtt_us = 0,
               tcp_state = SlowStart, congestion_event = OtherEvent\<rparr>)
        [(1, Acked 2941758)]) = Inr [Some 844] \<and>
   (844 :: u32) < 1460 \<and>
   map_sum id (map window)
     (run (root 3)
        (UseBIC (BIC_new 0),
         Some \<lparr>cwnd = 70000, ssthresh = 0x7fffffff, mss_bytes = 70000, rtt_us = 0,
               tcp_state = SlowStart, congestion_event = OtherEvent\<rparr>)
        [(1, Acked 1)]) = Inr [Some 65535] \<and>
   (65535 :: u32) < 70000 \<and>
   map_sum id (map threshold)
     (run (root 3)
        (UseCUBIC (Cubic_new 0),
         Some \<lparr>cwnd = 14600, ssthresh = 0x7fffffff, mss_bytes = 1460, rtt_us = 0,
               tcp_state = CongestionAvoidance, congestion_event = OtherEvent\<rparr>)
        [(1, Signal Timeout), (2, RttSample 1 40000), (3, RttSample 1 42000)])
     = Inr [Some 10220, Some 10220, Some 1460] \<and>
   (1460 :: u32) < 2 * 1460 \<and>
   CalculateDiff \<lparr>m_cwnd = 1460, m_baseRTT = 100000, m_currentRTT = 1000000,
                   m_alpha = 2, m_beta = 4\<rparr> = Inr 9 \<and>
   map_sum id Vegas.m_cwnd
     (VegasUpdate \<lparr>m_cwnd = 1460, m_baseRTT = 100000, m_currentRTT = 1000000,
                   m_alpha = 2, m_beta = 4\<rparr> 1460) = Inr 0 \<and>
   (0 :: u32) < 1460 \<and>
   map_sum id Vegas.m_cwnd
     (VegasUpdate \<lparr>m_cwnd = 4294966000, m_baseRTT = 100000, m_currentRTT = 100000,
                   m_alpha = 2, m_beta = 4\<rparr> 1460) = Inr 164 \<and>
   (164 :: u32) < 1460"
proof -
  have a: "map_sum id (map window)
     (run (root 3)
        (UseBIC (BIC_new 0),
         Some \<lparr>cwnd = 1460, ssthresh = 0x7fffffff, mss_bytes = 1460, rtt_us = 0,
               tcp_state = SlowStart, congestion_event = OtherEvent\<rparr>)
        [(1, Acked 2941758)]) = Inr [Some 844]"
    by (simp add: as_strategy_def on_socket_def BIC_IncreaseWindow_def BIC_SlowStart_def
          BIC_new_def Let_def window_def)
  have b: "map_sum id (map window)
     (run (root 3)
        (UseBIC (BIC_new 0),
         Some \<lparr>cwnd = 70000, ssthresh = 0x7fffffff, mss_bytes = 70000, rtt_us = 0,
               tcp_state = SlowStart, congestion_event = OtherEvent\<rparr>)
        [(1, Acked 1)]) = Inr [Some 65535]"
    by (simp add: as_strategy_def on_socket_def BIC_IncreaseWindow_def BIC_SlowStart_def
          BIC_new_def Let_def window_def)
  have c: "map_sum id (map threshold)
     (run (root 3)
        (UseCUBIC (Cubic_new 0),
         Some \<lparr>cwnd = 14600, ssthresh = 0x7fffffff, mss_bytes = 1460, rtt_us = 0,
               tcp_state = CongestionAvoidance, congestion_event = OtherEvent\<rparr>)
        [(1, Signal Timeout), (2, RttSample 1 40000), (3, RttSample 1 42000)])
     = Inr [Some 10220, Some 10220, Some 1460]"
    by (simp add: as_strategy_def on_socket_def Cubic_CwndEvent_def Cubic_GetSsThresh_def
          Cubic_PktsAcked_def CubicReset_def Cubic_new_def Let_def threshold_def fl_0_7
          cubic_product_14600 CalculateK_fields CalculateK_other_fields)
  have d: "CalculateDiff \<lparr>m_cwnd = 1460, m_baseRTT = 100000, m_currentRTT = 1000000,
                   m_alpha = 2, m_beta = 4\<rparr> = Inr 9 \<and>
   map_sum id Vegas.m_cwnd
     (VegasUpdate \<lparr>m_cwnd = 1460, m_baseRTT = 100000, m_currentRTT = 1000000,
                   m_alpha = 2, m_beta = 4\<rparr> 1460) = Inr 0 \<and>
   map_sum id Vegas.m_cwnd
     (VegasUpdate \<lparr>m_cwnd = 4294966000, m_baseRTT = 100000, m_currentRTT = 100000,
                   m_alpha = 2, m_beta = 4\<rparr> 1460) = Inr 164"
    by (simp add: VegasUpdate_def CalculateDiff_def udiv_def)
  show ?thesis using a b c d by simp
qed

text \<open>
  Claim C1, amended.  Take BIC or CUBIC with the parameters of its constructor, a socket
  with \<open>MSS \<le> 65535\<close> and \<open>MSS \<le> cwnd < 2\<^sup>3\<^sup>1\<close>, and any sequence of events (acknowledged
  segments, round-trip samples, congestion signals, at any clock readings) in which
  every \<open>Acked\<close> event acknowledges less than \<open>2\<^sup>3\<^sup>1\<close> bytes.  If the run returns (no
  undefined behaviour), then after each event the socket is there with \<open>cwnd \<ge> MSS\<close>, and
  right after each \<open>PacketLoss\<close>, \<open>Timeout\<close> or \<open>ECN\<close> event \<open>ssthresh \<ge> 2 \<times> MSS\<close>.  For
  Vegas, whose decrease has no floor: a congestion-avoidance step that returns, taken
  from a window of at least \<open>2 \<times> mss\<close> with \<open>cwnd + mss < 2\<^sup>3\<^sup>2\<close>, leaves \<open>cwnd \<ge> mss\<close>.
\<close>

theorem C1_window_invariant:
  assumes "default_parameters st"
    and "unat (mss_bytes s) \<le> 65535"
    and "unat (mss_bytes s) \<le> unat (cwnd s)" and "unat (cwnd s) < 2 ^ 31"
    and "\<forall>e\<in>set evs. unat (ack_segments (snd e)) * unat (mss_bytes s) < 2 ^ 31"
    and "run cbrt (st, Some s) evs = Inr cs"
  shows "length cs = length evs \<and>
         (\<forall>i<length evs. \<exists>w h. window (cs ! i) = Some w \<and> threshold (cs ! i) = Some h \<and>
            unat (mss_bytes s) \<le> unat w \<and>
            (is_reduction (snd (evs ! i)) \<longrightarrow> 2 * unat (mss_bytes s) \<le> unat h)) \<and>
         (VegasUpdate v m = Inr v' \<and> 2 * unat m \<le> unat (Vegas.m_cwnd v) \<and>
          unat (Vegas.m_cwnd v) + unat m < 2 ^ 32 \<longrightarrow> unat m \<le> unat (Vegas.m_cwnd v'))"
proof -
  have ok: "conn_ok (mss_bytes s) (st, Some s)"
    using assms(1,3,4) by (simp add: word_le_nat_alt)
  from run_inv[OF assms(2) ok assms(5,6)]
  have l: "length cs = length evs"
    and i: "\<And>i. i < length evs \<Longrightarrow> conn_ok (mss_bytes s) (cs ! i) \<and>
            (is_reduction (snd (evs ! i)) \<longrightarrow>
               (\<exists>h. threshold (cs ! i) = Some h \<and> 2 * unat (mss_bytes s) \<le> unat h))"
    by simp_all
  have "\<exists>w h. window (cs ! i) = Some w \<and> threshold (cs ! i) = Some h \<and>
            unat (mss_bytes s) \<le> unat w \<and>
            (is_reduction (snd (evs ! i)) \<longrightarrow> 2 * unat (mss_bytes s) \<le> unat h)"
    if "i < length evs" for i
  proof -
    obtain st' sock' where c: "cs ! i = (st', sock')" by (cases "cs ! i")
    with i[OF that] obtain s' where s': "sock' = Some s'" by (cases sock') auto
    from i[OF that] show ?thesis
      unfolding c s' by (auto simp: window_def threshold_def word_le_nat_alt)
  qed
  with l VegasUpdate_floor[of v m v'] show ?thesis by blast
qed

theorem C1_window_invariant_witness:
  "\<exists>cs. run (root 3)
          (UseBIC (BIC_new 0),
           Some \<lparr>cwnd = 14600, ssthresh = 0x7fffffff, mss_bytes = 1460, rtt_us = 0,
                 tcp_state = SlowStart, congestion_event = OtherEvent\<rparr>)
          [(1, Acked 2), (2, Signal PacketLoss), (3, Acked 1), (4, Signal Timeout)] = Inr cs \<and>
        length cs = 4 \<and>
        (\<exists>w. window (cs ! 3) = Some w \<and> 1460 \<le> unat w) \<and>
        (\<exists>h. threshold (cs ! 1) = Some h \<and> 2920 \<le> unat h) \<and>
        VegasUpdate \<lparr>m_cwnd = 2920, m_baseRTT = 100000, m_currentRTT = 1000000,
                      m_alpha = 2, m_beta = 4\<rparr> 1460
          = Inr \<lparr>m_cwnd = 1460, m_baseRTT = 100000, m_currentRTT = 1000000,
                   m_alpha = 2, m_beta = 4\<rparr> \<and>
        1460 \<le> unat (Vegas.m_cwnd \<lparr>m_cwnd = 1460, m_baseRTT = 100000, m_currentRTT = 1000000,
                                    m_alpha = 2, m_beta = 4\<rparr>)"
proof -
  define v0 where "v0 = \<lparr>m_cwnd = 2920, m_baseRTT = 100000, m_currentRTT = 1000000,
                         m_alpha = 2, m_beta = 4 :: u32\<rparr>"
  define v1 where "v1 = \<lparr>m_cwnd = 1460, m_baseRTT = 100000, m_currentRTT = 1000000,
                         m_alpha = 2, m_beta = 4 :: u32\<rparr>"
  have vu: "VegasUpdate v0 1460 = Inr v1"
    by (simp add: v0_def v1_def VegasUpdate_def CalculateDiff_def udiv_def)
  define s0 where "s0 = \<lparr>cwnd = 14600, ssthresh = 0x7fffffff, mss_bytes = 1460, rtt_us = 0,
                 tcp_state = SlowStart, congestion_event = OtherEvent\<rparr>"
  define evs where "evs = [(1 :: time_point, Acked 2), (2, Signal PacketLoss), (3, Acked 1), (4, Signal Timeout)]"
  have "\<exists>cs. run (root 3) (UseBIC (BIC_new 0), Some s0) evs = Inr cs"
    by (simp add: s0_def evs_def as_strategy_def on_socket_def BIC_IncreaseWindow_def
          BIC_SlowStart_def BIC_FastRecovery_def BIC_CwndEvent_def BIC_GetSsThresh_default
          BicReset_def BIC_new_def Let_def)
  then obtain cs where r: "run (root 3) (UseBIC (BIC_new 0), Some s0) evs = Inr cs" by blast
  have "length cs = length evs \<and>
         (\<forall>i<length evs. \<exists>w h. window (cs ! i) = Some w \<and> threshold (cs ! i) = Some h \<and>
            unat (mss_bytes s0) \<le> unat w \<and>
            (is_reduction (snd (evs ! i)) \<longrightarrow> 2 * unat (mss_bytes s0) \<le> unat h)) \<and>
         (VegasUpdate v0 1460 = Inr v1 \<and> 2 * unat (1460 :: u32) \<le> unat (Vegas.m_cwnd v0) \<and>
          unat (Vegas.m_cwnd v0) + unat (1460 :: u32) < 2 ^ 32 \<longrightarrow>
            unat (1460 :: u32) \<le> unat (Vegas.m_cwnd v1))"
    by (rule C1_window_invariant[OF _ _ _ _ _ r]) (simp_all add: s0_def evs_def BIC_new_def)
  then have l: "length cs = 4"
    and i: "\<And>i. i < 4 \<Longrightarrow> \<exists>w h. window (cs ! i) = Some w \<and> threshold (cs ! i) = Some h \<and>
            1460 \<le> unat w \<and> (is_reduction (snd (evs ! i)) \<longrightarrow> 2920 \<le> unat h)"
    and vg: "VegasUpdate v0 1460 = Inr v1 \<and> 2 * unat (1460 :: u32) \<le> unat (Vegas.m_cwnd v0) \<and>
          unat (Vegas.m_cwnd v0) + unat (1460 :: u32) < 2 ^ 32 \<longrightarrow>
            unat (1460 :: u32) \<le> unat (Vegas.m_cwnd v1)"
    by (simp_all add: s0_def evs_def)
  have vf: "1460 \<le> unat (Vegas.m_cwnd v1)"
    using vg vu by (simp add: v0_def)
  from i[of 3] have "\<exists>w. window (cs ! 3) = Some w \<and> 1460 \<le> unat w" by auto
  moreover from i[of 1] have "\<exists>h. threshold (cs ! 1) = Some h \<and> 2920 \<le> unat h"
    by (auto simp: evs_def)
  ultimately show ?thesis using r l vu vf unfolding s0_def evs_def v0_def v1_def by blast
qed

end
